theory Spec2Isabelle
  imports Complex_Main "HOL-Library.Multiset" "HOL-Library.Sublist" "HOL-Library.AList"
begin

section \<open>Python values and exceptions\<close>

text \<open>
  The development follows \<^verbatim>\<open>setup.py\<close>. Python strings are character lists; every
  \<^verbatim>\<open>raise\<close> of the script and of the library calls it makes is a value of
  \<open>py_exn\<close>, carried in the left summand of the result.
\<close>

datatype py_exn =
    ValueError
  | IndexError
  | AttributeError
  | NameError string
  | RuntimeError string
  | OSError nat
  | CalledProcessError int "string list"

text \<open>
  \<^verbatim>\<open>str.isspace\<close> on the code points below 256: the ASCII white space, the four
  separators \<^verbatim>\<open>\x1c\<close>..\<^verbatim>\<open>\x1f\<close>, NEL and the no-break space.
\<close>

definition py_isspace :: "char \<Rightarrow> bool" where
  "py_isspace c =
     (let n = (of_char c :: nat)
      in (9 \<le> n \<and> n \<le> 13) \<or> (28 \<le> n \<and> n \<le> 32) \<or> n = 133 \<or> n = 160)"

definition strip :: "string \<Rightarrow> string" where
  "strip s = rev (dropWhile py_isspace (rev (dropWhile py_isspace s)))"

definition lower_char :: "char \<Rightarrow> char" where
  "lower_char c =
     (let n = (of_char c :: nat)
      in if 65 \<le> n \<and> n \<le> 90 then char_of (n + 32) else c)"

definition lower :: "string \<Rightarrow> string" where
  "lower s = map lower_char s"

text \<open>\<^verbatim>\<open>list.remove(x)\<close>: deletes the first element equal to \<open>x\<close>, ValueError when there is none.\<close>

definition list_remove :: "'a \<Rightarrow> 'a list \<Rightarrow> py_exn + 'a list" where
  "list_remove x xs = (if x \<in> set xs then Inr (remove1 x xs) else Inl ValueError)"

section \<open>Option extraction: \<^verbatim>\<open>get_extra_cmake_options\<close>\<close>

text \<open>
  The loop runs over a copy of \<^verbatim>\<open>sys.argv\<close> and mutates \<^verbatim>\<open>sys.argv\<close> itself;
  its variables and the mutated list form the state.
\<close>

record scan_state =
  cmake_extra_opts :: "string list"
  clean_build :: bool
  opt_key :: "string option"
  sys_argv :: "string list"

text \<open>Truth value of \<^verbatim>\<open>opt_key\<close>: \<^verbatim>\<open>None\<close> and the empty string are false.\<close>

definition truthy :: "string option \<Rightarrow> bool" where
  "truthy k = (case k of None \<Rightarrow> False | Some t \<Rightarrow> t \<noteq> [])"

definition value_flags :: "string list" where
  "value_flags = [''--yes'', ''--no'', ''--compiler-flags'']"

definition append_switch :: "string option \<Rightarrow> string \<Rightarrow> string list \<Rightarrow> string list" where
  "append_switch k arg opts =
     (if k = Some ''compiler-flags'' then opts @ [''-DCMAKE_CXX_FLAGS='' @ strip arg]
      else if k = Some ''yes'' then opts @ [''-D'' @ strip arg @ ''=yes'']
      else if k = Some ''no'' then opts @ [''-D'' @ strip arg @ ''=no'']
      else opts)"

definition scan_step :: "string \<Rightarrow> scan_state \<Rightarrow> py_exn + scan_state" where
  "scan_step arg s =
     (let opts = append_switch (opt_key s) arg (cmake_extra_opts s)
      in if truthy (opt_key s) then
           (case list_remove arg (sys_argv s) of
              Inl e \<Rightarrow> Inl e
            | Inr a \<Rightarrow> Inr (s\<lparr>cmake_extra_opts := opts, opt_key := None, sys_argv := a\<rparr>))
         else if arg = ''--clean'' then
           (case list_remove arg (sys_argv s) of
              Inl e \<Rightarrow> Inl e
            | Inr a \<Rightarrow> Inr (s\<lparr>cmake_extra_opts := opts, clean_build := True, sys_argv := a\<rparr>))
         else if arg \<in> set value_flags then
           (case list_remove arg (sys_argv s) of
              Inl e \<Rightarrow> Inl e
            | Inr a \<Rightarrow>
                Inr (s\<lparr>cmake_extra_opts := opts, opt_key := Some (lower (drop 2 arg)),
                       sys_argv := a\<rparr>))
         else Inr (s\<lparr>cmake_extra_opts := opts\<rparr>))"

fun scan :: "string list \<Rightarrow> scan_state \<Rightarrow> py_exn + scan_state" where
  "scan [] s = Inr s"
| "scan (arg # rest) s =
     (case scan_step arg s of Inl e \<Rightarrow> Inl e | Inr s' \<Rightarrow> scan rest s')"

definition scan_init :: "string list \<Rightarrow> scan_state" where
  "scan_init argv =
     \<lparr>cmake_extra_opts = [], clean_build = False, opt_key = None, sys_argv = argv\<rparr>"

text \<open>
  The result is the returned pair (switches, clean flag) together with
  \<^verbatim>\<open>sys.argv\<close> as the call leaves it.
\<close>

definition get_extra_cmake_options ::
  "string list \<Rightarrow> py_exn + ((string list \<times> bool) \<times> string list)" where
  "get_extra_cmake_options argv =
     (case scan argv (scan_init argv) of
        Inl e \<Rightarrow> Inl e
      | Inr s \<Rightarrow> Inr ((cmake_extra_opts s, clean_build s), sys_argv s))"

subsection \<open>The flag grammar of the specification\<close>

text \<open>
  The specification describes the extractor by a grammar: \<^verbatim>\<open>--yes\<close>, \<^verbatim>\<open>--no\<close> and
  \<^verbatim>\<open>--compiler-flags\<close> each consume themselves and the token that follows,
  \<^verbatim>\<open>--clean\<close> consumes itself only. The functions below read an argument list by
  that grammar, from left to right, and are what the loop is compared with:
  \<open>dangling\<close> (the list ends in a value flag that has no value), \<open>well_formed\<close>
  (no flag is left without its value), \<open>spec_switches\<close> (one switch per flag, in the order
  of the flags), \<open>unconsumed\<close> (the tokens that are neither a flag nor a flag's value,
  in their order) and \<open>consumed\<close> (the others).
\<close>

fun dangling :: "string list \<Rightarrow> bool" where
  "dangling [] = False"
| "dangling [x] = (x \<in> set value_flags)"
| "dangling (x # v # ys) = (if x \<in> set value_flags then dangling ys else dangling (v # ys))"

definition switch_for :: "string \<Rightarrow> string \<Rightarrow> string" where
  "switch_for f v =
     (if f = ''--compiler-flags'' then ''-DCMAKE_CXX_FLAGS='' @ strip v
      else if f = ''--yes'' then ''-D'' @ strip v @ ''=yes''
      else ''-D'' @ strip v @ ''=no'')"

fun spec_switches :: "string list \<Rightarrow> string list" where
  "spec_switches (f # v # rest) =
     (if f \<in> set value_flags then switch_for f v # spec_switches rest
      else spec_switches (v # rest))"
| "spec_switches _ = []"

fun unconsumed :: "string list \<Rightarrow> string list" where
  "unconsumed [] = []"
| "unconsumed [x] = (if x \<in> set value_flags \<or> x = ''--clean'' then [] else [x])"
| "unconsumed (x # v # ys) =
     (if x \<in> set value_flags then unconsumed ys
      else if x = ''--clean'' then unconsumed (v # ys)
      else x # unconsumed (v # ys))"

fun well_formed :: "string list \<Rightarrow> bool" where
  "well_formed [] = True"
| "well_formed [x] = (x \<notin> set value_flags)"
| "well_formed (x # v # ys) =
     (if x \<in> set value_flags then well_formed ys else well_formed (v # ys))"

fun consumed :: "string list \<Rightarrow> string list" where
  "consumed [] = []"
| "consumed [x] = (if x \<in> set value_flags \<or> x = ''--clean'' then [x] else [])"
| "consumed (x # v # ys) =
     (if x \<in> set value_flags then x # v # consumed ys
      else if x = ''--clean'' then x # consumed (v # ys)
      else consumed (v # ys))"

section \<open>Version reading: \<^verbatim>\<open>read_version_from_cmakelists\<close>\<close>

text \<open>
  Each field is read with
  \<^verbatim>\<open>re.findall("set\(CPACK_PACKAGE_VERSION_MAJOR.*\"(.*)\"", text)[0]\<close>.
  The pattern is a literal, then \<^verbatim>\<open>.*\<close>, a double quote, the group
  \<^verbatim>\<open>(.*)\<close> and a double quote; a dot matches every character but the newline and
  both stars are greedy. A match that starts at a given position therefore needs the literal
  there and two double quotes in what is left of the line; the first star stops at the last
  but one of these quotes, the group lies between the last two, and the match ends behind the
  last. \<open>tail_match\<close> computes the group and the length of that part of the match from the
  text behind the literal, \<open>match_here\<close> the match at the head of a text, and
  \<open>findall\<close> scans from left to right, resuming behind each match. The function takes the
  content of the file, which it reads three times.
\<close>

definition newline :: char where "newline = CHR 0x0A"
definition dquote :: char where "dquote = CHR 0x22"

definition tail_match :: "string \<Rightarrow> (string \<times> nat) option" where
  "tail_match rest =
     (let line = takeWhile (\<lambda>c. c \<noteq> newline) rest;
          r1 = dropWhile (\<lambda>c. c \<noteq> dquote) (rev line)
      in if r1 = [] then None
         else let r2 = tl r1; r3 = dropWhile (\<lambda>c. c \<noteq> dquote) r2
              in if r3 = [] then None
                 else Some (rev (takeWhile (\<lambda>c. c \<noteq> dquote) r2), length r1))"

definition match_here :: "string \<Rightarrow> string \<Rightarrow> (string \<times> nat) option" where
  "match_here lit s =
     (if prefix lit s then
        (case tail_match (drop (length lit) s) of
           None \<Rightarrow> None
         | Some (g, n) \<Rightarrow> Some (g, length lit + n))
      else None)"

function findall :: "string \<Rightarrow> string \<Rightarrow> string list" where
  "findall lit s =
     (case match_here lit s of
        Some (g, n) \<Rightarrow> g # findall lit (drop n s)
      | None \<Rightarrow> (case s of [] \<Rightarrow> [] | c # cs \<Rightarrow> findall lit cs))"
  by pat_completeness auto
termination
proof (relation "measure (\<lambda>(lit, s). length s)", goal_cases)
  case 1
  show ?case by simp
next
  case (3 lit s x2 g n)
  then have mh: "match_here lit s = Some (g, n)" by simp
  then have p: "prefix lit s" by (simp add: match_here_def split: if_splits)
  from mh p obtain m where tm: "tail_match (drop (length lit) s) = Some (g, m)"
    and n: "n = length lit + m"
    by (auto simp: match_here_def split: option.splits)
  define r1 where
    "r1 = dropWhile (\<lambda>c. c \<noteq> dquote)
            (rev (takeWhile (\<lambda>c. c \<noteq> newline) (drop (length lit) s)))"
  have unf: "tail_match (drop (length lit) s) =
     (if r1 = [] then None
      else if dropWhile (\<lambda>c. c \<noteq> dquote) (tl r1) = [] then None
           else Some (rev (takeWhile (\<lambda>c. c \<noteq> dquote) (tl r1)), length r1))"
    unfolding r1_def by (simp only: tail_match_def Let_def)
  have ne: "r1 \<noteq> []" using tm unf by (cases "r1 = []") simp_all
  have m: "m = length r1" using tm unf ne by (auto split: if_splits)
  have "length r1 \<le> length (rev (takeWhile (\<lambda>c. c \<noteq> newline) (drop (length lit) s)))"
    unfolding r1_def by (rule length_dropWhile_le)
  also have "\<dots> \<le> length (drop (length lit) s)"
    unfolding length_rev by (rule length_takeWhile_le)
  finally have "m \<le> length s - length lit" using m by simp
  moreover have "length lit \<le> length s" using p by (rule prefix_length_le)
  moreover have "0 < m" using ne m by simp
  ultimately have "0 < n \<and> n \<le> length s" using n by simp
  then show ?case by auto
next
  case (2 lit s c cs)
  then show ?case by simp
qed

declare findall.simps [simp del]

text \<open>
  What it means for the pattern of a field to have a match somewhere in a text, said without
  the scanner: the literal, then two double quotes further on, with no newline before the
  second.
\<close>

definition field_matches :: "string \<Rightarrow> string \<Rightarrow> bool" where
  "field_matches lit text \<longleftrightarrow>
     (\<exists>pre a g post. text = pre @ lit @ a @ dquote # g @ dquote # post
        \<and> newline \<notin> set a \<and> newline \<notin> set g)"

definition major_lit where "major_lit = ''set(CPACK_PACKAGE_VERSION_MAJOR''"

definition minor_lit where "minor_lit = ''set(CPACK_PACKAGE_VERSION_MINOR''"

definition patch_lit where "patch_lit = ''set(CPACK_PACKAGE_VERSION_PATCH''"

text \<open>\<^verbatim>\<open>xs[0]\<close>: IndexError on the empty list.\<close>

definition first_item :: "'a list \<Rightarrow> py_exn + 'a" where
  "first_item xs = (case xs of [] \<Rightarrow> Inl IndexError | x # _ \<Rightarrow> Inr x)"

definition read_version_from_cmakelists :: "string \<Rightarrow> py_exn + string" where
  "read_version_from_cmakelists text =
     (case first_item (findall major_lit text) of
        Inl e \<Rightarrow> Inl e
      | Inr major \<Rightarrow>
         (case first_item (findall minor_lit text) of
            Inl e \<Rightarrow> Inl e
          | Inr minor \<Rightarrow>
             (case first_item (findall patch_lit text) of
                Inl e \<Rightarrow> Inl e
              | Inr patch \<Rightarrow> Inr (major @ ''.'' @ minor @ ''.'' @ patch))))"

text \<open>Three sample files: a complete one, one without the PATCH line, one without the MAJOR line.\<close>

definition cm1 :: string where
 "cm1 = ''cmake_minimum_required(VERSION 2.8.12)'' @ [newline] @
        ''set(CPACK_PACKAGE_VERSION_MAJOR \"19\")'' @ [newline] @
        ''set(CPACK_PACKAGE_VERSION_MINOR \"24\")'' @ [newline] @
        ''set(CPACK_PACKAGE_VERSION_PATCH \"2\")'' @ [newline]"

definition without_patch :: string where
  "without_patch =
     ''set(CPACK_PACKAGE_VERSION_MAJOR \"19\")'' @ [newline] @
     ''set(CPACK_PACKAGE_VERSION_MINOR \"24\")'' @ [newline]"

definition without_major :: string where
  "without_major =
     ''set(CPACK_PACKAGE_VERSION_MINOR \"24\")'' @ [newline] @
     ''set(CPACK_PACKAGE_VERSION_PATCH \"2\")'' @ [newline]"

section \<open>The build directory\<close>

text \<open>
  The file system is a tree. A path is the list of its components below the root (what
  \<^verbatim>\<open>os.path.abspath\<close> returns, split at the separators). Every entry carries one
  flag, read-only: the operating system refuses to remove a read-only entry, with the error
  EACCES, until its mode is changed. This is the situation the error handler of
  \<^verbatim>\<open>rmtree\<close> is written for.
\<close>

type_synonym path = "string list"

datatype node = File bool | Dir bool "(string \<times> node) list"

definition EACCES :: nat where "EACCES = 13"
definition ENOENT :: nat where "ENOENT = 2"
definition EEXIST :: nat where "EEXIST = 17"
definition ENOTDIR :: nat where "ENOTDIR = 20"
definition ENOTEMPTY :: nat where "ENOTEMPTY = 39"
definition EISDIR :: nat where "EISDIR = 21"

text \<open>\<open>lookup t p\<close> is the entry at \<open>p\<close>, so \<^verbatim>\<open>os.path.exists(p)\<close> is \<open>lookup t p \<noteq> None\<close>;
  \<open>put p r t\<close> replaces the entry at \<open>p\<close> by \<open>r\<close>, where \<open>None\<close> deletes it.\<close>

fun lookup :: "node \<Rightarrow> path \<Rightarrow> node option" where
  "lookup n [] = Some n"
| "lookup (File ro) (c # cs) = None"
| "lookup (Dir ro kids) (c # cs) =
     (case map_of kids c of None \<Rightarrow> None | Some k \<Rightarrow> lookup k cs)"

fun put :: "path \<Rightarrow> node option \<Rightarrow> node \<Rightarrow> node" where
  "put [] r n = (case r of None \<Rightarrow> n | Some n' \<Rightarrow> n')"
| "put (c # cs) r (File ro) = File ro"
| "put (c # cs) r (Dir ro kids) =
     (case map_of kids c of
        None \<Rightarrow> Dir ro kids
      | Some k \<Rightarrow>
          (if cs = [] \<and> r = None then Dir ro (AList.delete c kids)
           else Dir ro (AList.update c (put cs r k) kids)))"

text \<open>
  \<^verbatim>\<open>os.makedirs\<close>: walks down the path, creates every missing directory, and fails
  when the leaf exists already or a component is a file. The second argument is the entry
  found at the current position, if any. A failure leaves the tree as it was.
\<close>

fun makedirs_node :: "path \<Rightarrow> node option \<Rightarrow> py_exn + node" where
  "makedirs_node [] None = Inr (Dir False [])"
| "makedirs_node [] (Some n) = Inl (OSError EEXIST)"
| "makedirs_node (c # cs) None =
     (case makedirs_node cs None of Inl e \<Rightarrow> Inl e | Inr k \<Rightarrow> Inr (Dir False [(c, k)]))"
| "makedirs_node (c # cs) (Some (File ro)) = Inl (OSError ENOTDIR)"
| "makedirs_node (c # cs) (Some (Dir ro kids)) =
     (case makedirs_node cs (map_of kids c) of
        Inl e \<Rightarrow> Inl e
      | Inr k \<Rightarrow> Inr (Dir ro (AList.update c k kids)))"

text \<open>
  \<^verbatim>\<open>shutil.rmtree(path, ignore_errors=False, onerror=h)\<close> is library code. Its contract:
  list the directory, remove every file with \<^verbatim>\<open>os.remove\<close>, recurse into every
  subdirectory, remove the directory with \<^verbatim>\<open>os.rmdir\<close>; when one of these calls fails,
  call \<open>h\<close> with the function that failed, the path and the exception; go on when \<open>h\<close>
  returns, and let an exception of \<open>h\<close> propagate. The results below are what is left of
  the entry (\<open>None\<close> when it is gone) and the exception raised, if any. Files are removed
  with \<^verbatim>\<open>os.remove\<close>, as in the library of Python 2, against which the handler's test
  \<^verbatim>\<open>func in (os.rmdir, os.remove)\<close> is written; directories are removed with
  \<^verbatim>\<open>os.rmdir\<close> in every version.
\<close>

datatype os_func = os_listdir | os_remove | os_rmdir

definition os_call :: "os_func \<Rightarrow> node \<Rightarrow> node option \<times> py_exn option" where
  "os_call f n =
     (case f of
        os_listdir \<Rightarrow>
          (case n of File ro \<Rightarrow> (Some n, Some (OSError ENOTDIR)) | Dir ro kids \<Rightarrow> (Some n, None))
      | os_remove \<Rightarrow>
          (case n of
             File ro \<Rightarrow> if ro then (Some n, Some (OSError EACCES)) else (None, None)
           | Dir ro kids \<Rightarrow> (Some n, Some (OSError EISDIR)))
      | os_rmdir \<Rightarrow>
          (case n of
             File ro \<Rightarrow> (Some n, Some (OSError ENOTDIR))
           | Dir ro kids \<Rightarrow>
               if kids \<noteq> [] then (Some n, Some (OSError ENOTEMPTY))
               else if ro then (Some n, Some (OSError EACCES))
               else (None, None)))"

definition chmod_rwx :: "node \<Rightarrow> node" where
  "chmod_rwx n = (case n of File ro \<Rightarrow> File False | Dir ro kids \<Rightarrow> Dir False kids)"

type_synonym handler = "os_func \<Rightarrow> node \<Rightarrow> py_exn \<Rightarrow> node option \<times> py_exn option"

definition attempt :: "handler \<Rightarrow> os_func \<Rightarrow> node \<Rightarrow> node option \<times> py_exn option" where
  "attempt onerror f n =
     (case os_call f n of (r, None) \<Rightarrow> (r, None) | (r, Some e) \<Rightarrow> onerror f n e)"

fun keep :: "string \<Rightarrow> node option \<Rightarrow> (string \<times> node) list" where
  "keep nm None = []"
| "keep nm (Some n) = [(nm, n)]"

fun shutil_rmtree :: "handler \<Rightarrow> node \<Rightarrow> node option \<times> py_exn option"
and rmtree_entries :: "handler \<Rightarrow> (string \<times> node) list \<Rightarrow> (string \<times> node) list \<times> py_exn option" where
  "shutil_rmtree onerror (File ro) =
     (case attempt onerror os_listdir (File ro) of
        (r, Some e) \<Rightarrow> (r, Some e)
      | (None, None) \<Rightarrow> (None, None)
      | (Some n, None) \<Rightarrow> attempt onerror os_rmdir n)"
| "shutil_rmtree onerror (Dir ro kids) =
     (case rmtree_entries onerror kids of
        (kids', Some e) \<Rightarrow> (Some (Dir ro kids'), Some e)
      | (kids', None) \<Rightarrow> attempt onerror os_rmdir (Dir ro kids'))"
| "rmtree_entries onerror [] = ([], None)"
| "rmtree_entries onerror ((nm, n) # rest) =
     (case (case n of
              Dir ro kids \<Rightarrow> shutil_rmtree onerror n
            | File ro \<Rightarrow> attempt onerror os_remove n) of
        (r, Some e) \<Rightarrow> (keep nm r @ rest, Some e)
      | (r, None) \<Rightarrow>
          (case rmtree_entries onerror rest of (rest', x) \<Rightarrow> (keep nm r @ rest', x)))"

text \<open>
  The handler \<^verbatim>\<open>remove_read_only\<close> refers to the modules \<^verbatim>\<open>errno\<close> and
  \<^verbatim>\<open>stat\<close>. Neither name is local or built in, so each is looked up among the names
  bound at the top level of \<^verbatim>\<open>setup.py\<close>: its imports, functions, classes and the two
  variables assigned from \<^verbatim>\<open>get_extra_cmake_options()\<close>. A name that is not bound
  raises NameError where it is evaluated. In the condition
  \<^verbatim>\<open>func in (os.rmdir, os.remove) and excvalue.errno == errno.EACCES\<close> that is after the
  membership test has succeeded; the bare \<^verbatim>\<open>raise\<close> of the other branch raises the
  exception being handled again.
\<close>

definition module_names :: "string list" where
  "module_names =
     [''os'', ''re'', ''sys'', ''shutil'', ''platform'', ''subprocess'', ''multiprocessing'',
      ''log'', ''ceil'', ''setup'', ''Extension'', ''build_ext'', ''LooseVersion'',
      ''get_extra_cmake_options'', ''cmake_extra_options'', ''clean_build_folder'',
      ''CMakeExtension'', ''rmtree'', ''CMakeBuild'', ''TestCommand'', ''PyTest'',
      ''read_version_from_cmakelists'', ''read_entire_file'']"

definition name_bound :: "string \<Rightarrow> bool" where
  "name_bound x = (x \<in> set module_names)"

definition remove_read_only :: handler where
  "remove_read_only func n exc =
     (if func \<in> set [os_rmdir, os_remove] then
        (if \<not> name_bound ''errno'' then (Some n, Some (NameError ''errno''))
         else if exc = OSError EACCES then
           (if \<not> name_bound ''stat'' then (Some n, Some (NameError ''stat''))
            else os_call func (chmod_rwx n))
         else (Some n, Some exc))
      else (Some n, Some exc))"


text \<open>
  What a run does to its surroundings: the tree, and the calls made, in order.
  \<open>rmtree\<close> is the function of that name in \<^verbatim>\<open>setup.py\<close>, \<open>makedirs\<close> is
  \<^verbatim>\<open>os.makedirs\<close>, and \<open>prepare_build_folder\<close> is the preparation step of
  \<^verbatim>\<open>build_extension\<close>: \<^verbatim>\<open>if clean_build_folder: rmtree(build_folder)\<close>, then
  \<^verbatim>\<open>if not os.path.exists(build_folder): os.makedirs(build_folder)\<close>.
\<close>

datatype event = RmtreeCall path | MakedirsCall path | ProcCall "string list" "path option"

record world =
  fs :: node
  events :: "event list"

definition rmtree :: "path \<Rightarrow> world \<Rightarrow> py_exn option \<times> world" where
  "rmtree p w =
     (case lookup (fs w) p of
        None \<Rightarrow> (None, w)
      | Some n \<Rightarrow>
          (case shutil_rmtree remove_read_only n of
             (r, x) \<Rightarrow> (x, w\<lparr>fs := put p r (fs w), events := events w @ [RmtreeCall p]\<rparr>)))"

definition makedirs :: "path \<Rightarrow> world \<Rightarrow> py_exn option \<times> world" where
  "makedirs p w =
     (case makedirs_node p (Some (fs w)) of
        Inl e \<Rightarrow> (Some e, w\<lparr>events := events w @ [MakedirsCall p]\<rparr>)
      | Inr t \<Rightarrow> (None, w\<lparr>fs := t, events := events w @ [MakedirsCall p]\<rparr>))"

definition prepare_build_folder :: "bool \<Rightarrow> path \<Rightarrow> world \<Rightarrow> py_exn option \<times> world" where
  "prepare_build_folder clean p w =
     (case (if clean then rmtree p w else (None, w)) of
        (Some e, w1) \<Rightarrow> (Some e, w1)
      | (None, w1) \<Rightarrow>
          if lookup (fs w1) p = None then makedirs p w1 else (None, w1))"

section \<open>The build command: \<^verbatim>\<open>CMakeBuild\<close>\<close>

text \<open>
  The host is what the script reads from its platform, and \<open>run_proc\<close> is what an
  external command does there: it cannot be started, or it exits with a status and an output
  (the text that \<^verbatim>\<open>out.decode()\<close> yields).
  \<^verbatim>\<open>subprocess.check_call\<close> and \<^verbatim>\<open>check_output\<close> raise OSError in the first case
  and CalledProcessError for a status other than zero. Of a \<^verbatim>\<open>CMakeBuild\<close> object the
  model keeps the extensions, the debug flag, the absolute path of \<^verbatim>\<open>build_temp\<close>
  and, as \<open>ext_dir\<close>, the function from an extension name to the absolute directory of
  \<^verbatim>\<open>get_ext_fullpath\<close>. The switches and the clean flag computed at import time are
  passed as the arguments \<open>opts\<close> and \<open>clean\<close>.
\<close>

datatype proc_result = NotFound | Exited int string

record host =
  platform_system :: string
  sys_executable :: string
  sys_maxsize :: int
  cpu_count :: nat
  run_proc :: "string list \<Rightarrow> proc_result"

record extension =
  name :: string
  sourcedir :: string

record cmake_build =
  extensions :: "extension list"
  debug :: bool
  build_temp :: path
  ext_dir :: "string \<Rightarrow> string"

definition check_call :: "host \<Rightarrow> string list \<Rightarrow> path \<Rightarrow> world \<Rightarrow> py_exn option \<times> world" where
  "check_call h cmd cwd w =
     (let w' = w\<lparr>events := events w @ [ProcCall cmd (Some cwd)]\<rparr>
      in case run_proc h cmd of
           NotFound \<Rightarrow> (Some (OSError ENOENT), w')
         | Exited rc out \<Rightarrow> (if rc \<noteq> 0 then Some (CalledProcessError rc cmd) else None, w'))"

definition check_output :: "host \<Rightarrow> string list \<Rightarrow> world \<Rightarrow> (py_exn + string) \<times> world" where
  "check_output h cmd w =
     (let w' = w\<lparr>events := events w @ [ProcCall cmd None]\<rparr>
      in case run_proc h cmd of
           NotFound \<Rightarrow> (Inl (OSError ENOENT), w')
         | Exited rc out \<Rightarrow> (if rc \<noteq> 0 then Inl (CalledProcessError rc cmd) else Inr out, w'))"

text \<open>
  \<^verbatim>\<open>re.search(r'version\s*([\d.]+)', out)\<close>: the leftmost position where the word is
  followed by white space, as much as there is, and then by at least one digit or dot; the
  group is the longest run of digits and dots from there. No match gives \<^verbatim>\<open>None\<close>,
  whose \<^verbatim>\<open>.group\<close> raises AttributeError.
\<close>

definition is_digit :: "char \<Rightarrow> bool" where
  "is_digit c = (let n = (of_char c :: nat) in 48 \<le> n \<and> n \<le> 57)"

definition version_char :: "char \<Rightarrow> bool" where
  "version_char c = (is_digit c \<or> c = CHR ''.'')"

definition version_here :: "string \<Rightarrow> string option" where
  "version_here s =
     (if prefix ''version'' s then
        (let g = takeWhile version_char (dropWhile py_isspace (drop 7 s))
         in if g = [] then None else Some g)
      else None)"

fun search_version :: "string \<Rightarrow> string option" where
  "search_version [] = None"
| "search_version (c # cs) =
     (case version_here (c # cs) of Some g \<Rightarrow> Some g | None \<Rightarrow> search_version cs)"

fun join :: "string \<Rightarrow> string list \<Rightarrow> string" where
  "join sep [] = []"
| "join sep [x] = x"
| "join sep (x # y # ys) = x @ sep @ join sep (y # ys)"

definition is_OSError :: "py_exn \<Rightarrow> bool" where
  "is_OSError e = (case e of OSError n \<Rightarrow> True | _ \<Rightarrow> False)"

definition get_cmake_version :: "host \<Rightarrow> cmake_build \<Rightarrow> world \<Rightarrow> (py_exn + string) \<times> world" where
  "get_cmake_version h self w =
     (case check_output h [''cmake'', ''--version''] w of
        (Inl e, w') \<Rightarrow>
          (if is_OSError e then
             Inl (RuntimeError (''CMake must be installed to build the following extensions: ''
                                  @ join '', '' (map name (extensions self))))
           else Inl e, w')
      | (Inr out, w') \<Rightarrow>
          (case search_version out of None \<Rightarrow> Inl AttributeError | Some g \<Rightarrow> Inr g, w'))"

text \<open>
  \<^verbatim>\<open>LooseVersion\<close> is library code. On a string of digits and dots, which is all the
  pattern above can return, its components are the runs of digits, read as numbers, and two
  versions compare as the lists of their components do in Python: lexicographically, a proper
  prefix being smaller.
\<close>

definition digit_val :: "char \<Rightarrow> nat" where
  "digit_val c = of_char c - 48"

definition read_nat :: "string \<Rightarrow> nat" where
  "read_nat s = foldl (\<lambda>acc c. 10 * acc + digit_val c) 0 s"

fun components :: "string \<Rightarrow> string \<Rightarrow> nat list" where
  "components cur [] = (if cur = [] then [] else [read_nat cur])"
| "components cur (c # cs) =
     (if c = CHR ''.'' then (if cur = [] then components [] cs else read_nat cur # components [] cs)
      else components (cur @ [c]) cs)"

definition LooseVersion :: "string \<Rightarrow> nat list" where
  "LooseVersion v = components [] v"

fun list_less :: "nat list \<Rightarrow> nat list \<Rightarrow> bool" where
  "list_less [] [] = False"
| "list_less [] (y # ys) = True"
| "list_less (x # xs) [] = False"
| "list_less (x # xs) (y # ys) = (x < y \<or> (x = y \<and> list_less xs ys))"

definition upper_char :: "char \<Rightarrow> char" where
  "upper_char c =
     (let n = (of_char c :: nat)
      in if 97 \<le> n \<and> n \<le> 122 then char_of (n - 32) else c)"

definition upper :: "string \<Rightarrow> string" where
  "upper s = map upper_char s"

text \<open>\<^verbatim>\<open>str\<close> of an integer, in decimal.\<close>

fun str_nat :: "nat \<Rightarrow> string" where
  "str_nat n = (if n < 10 then [char_of (48 + n)] else str_nat (n div 10) @ [char_of (48 + n mod 10)])"

declare str_nat.simps [simp del]

definition py_str :: "int \<Rightarrow> string" where
  "py_str i = (if i < 0 then CHR ''-'' # str_nat (nat (- i)) else str_nat (nat i))"

definition cfg :: "cmake_build \<Rightarrow> string" where
  "cfg self = (if debug self then ''Debug'' else ''Release'')"

text \<open>
  \<^verbatim>\<open>int(ceil(multiprocessing.cpu_count()/2.0))\<close>. The division is modelled over the
  reals: halving a count below \<open>2^53\<close> is exact in binary floating point, and so is the
  rounding that follows.
\<close>

definition num_cores :: "host \<Rightarrow> int" where
  "num_cores h = \<lceil>real (cpu_count h) / 2\<rceil>"

definition cmake_args :: "host \<Rightarrow> string list \<Rightarrow> cmake_build \<Rightarrow> string \<Rightarrow> string list" where
  "cmake_args h opts self extdir =
     [''-DCMAKE_LIBRARY_OUTPUT_DIRECTORY='' @ extdir, ''-DPYTHON_EXECUTABLE='' @ sys_executable h]
     @ opts
     @ (if platform_system h = ''Windows'' then
          [''-DCMAKE_LIBRARY_OUTPUT_DIRECTORY_'' @ upper (cfg self) @ ''='' @ extdir]
          @ (if sys_maxsize h > 2 ^ 32 then [''-A'', ''x64''] else [])
        else [''-DCMAKE_BUILD_TYPE='' @ cfg self])"

definition build_args :: "host \<Rightarrow> cmake_build \<Rightarrow> string list" where
  "build_args h self =
     [''--config'', cfg self]
     @ (if platform_system h = ''Windows'' then [''--'', ''/m'']
        else [''--'', ''-j'' @ py_str (num_cores h)])"

definition configure_cmd :: "host \<Rightarrow> string list \<Rightarrow> cmake_build \<Rightarrow> extension \<Rightarrow> string list" where
  "configure_cmd h opts self ext =
     [''cmake'', sourcedir ext] @ cmake_args h opts self (ext_dir self (name ext))"

definition build_cmd :: "host \<Rightarrow> cmake_build \<Rightarrow> string list" where
  "build_cmd h self = [''cmake'', ''--build'', ''.''] @ build_args h self"

definition build_extension ::
  "host \<Rightarrow> string list \<Rightarrow> bool \<Rightarrow> cmake_build \<Rightarrow> extension \<Rightarrow> world \<Rightarrow> py_exn option \<times> world" where
  "build_extension h opts clean self ext w =
     (case prepare_build_folder clean (build_temp self) w of
        (Some e, w1) \<Rightarrow> (Some e, w1)
      | (None, w1) \<Rightarrow>
          (case check_call h (configure_cmd h opts self ext) (build_temp self) w1 of
             (Some e, w2) \<Rightarrow> (Some e, w2)
           | (None, w2) \<Rightarrow> check_call h (build_cmd h self) (build_temp self) w2))"

fun build_all ::
  "host \<Rightarrow> string list \<Rightarrow> bool \<Rightarrow> cmake_build \<Rightarrow> extension list \<Rightarrow> world \<Rightarrow> py_exn option \<times> world" where
  "build_all h opts clean self [] w = (None, w)"
| "build_all h opts clean self (ext # exts) w =
     (case build_extension h opts clean self ext w of
        (Some e, w1) \<Rightarrow> (Some e, w1)
      | (None, w1) \<Rightarrow> build_all h opts clean self exts w1)"

definition run :: "host \<Rightarrow> string list \<Rightarrow> bool \<Rightarrow> cmake_build \<Rightarrow> world \<Rightarrow> py_exn option \<times> world" where
  "run h opts clean self w =
     (if platform_system h = ''Windows'' then
        (case get_cmake_version h self w of
           (Inl e, w1) \<Rightarrow> (Some e, w1)
         | (Inr v, w1) \<Rightarrow>
             if list_less (LooseVersion v) (LooseVersion ''3.1.0'')
             then (Some (RuntimeError ''CMake >= 3.1.0 is required on Windows''), w1)
             else build_all h opts clean self (extensions self) w1)
      else build_all h opts clean self (extensions self) w)"

subsection \<open>Sample hosts and trees\<close>

definition dlib_build :: cmake_build where
  "dlib_build = \<lparr>extensions = [\<lparr>name = ''dlib'', sourcedir = ''/src/dlib/tools/python''\<rparr>],
     debug = False, build_temp = [''src'', ''dlib'', ''build'', ''temp''],
     ext_dir = (\<lambda>n. ''/src/dlib/build/lib'')\<rparr>"

definition linux_no_cmake :: host where
  "linux_no_cmake = \<lparr>platform_system = ''Linux'', sys_executable = ''/usr/bin/python'',
     sys_maxsize = 2 ^ 63 - 1, cpu_count = 7, run_proc = (\<lambda>cmd. NotFound)\<rparr>"

definition windows_old_cmake :: host where
  "windows_old_cmake = \<lparr>platform_system = ''Windows'', sys_executable = ''python.exe'',
     sys_maxsize = 2 ^ 63 - 1, cpu_count = 8,
     run_proc = (\<lambda>cmd. if cmd = [''cmake'', ''--version''] then Exited 0 (''cmake version 2.8.12'' @ [CHR 0x0A]) else Exited 0 [])\<rparr>"

definition src_tree :: node where
  "src_tree = Dir False [(''src'', Dir False [(''dlib'', Dir False [(''setup.py'', File False)])])]"

definition exit_one :: host where
  "exit_one = \<lparr>platform_system = ''Linux'', sys_executable = ''/usr/bin/python'',
     sys_maxsize = 2 ^ 63 - 1, cpu_count = 8, run_proc = (\<lambda>cmd. Exited 1 [])\<rparr>"

definition built_tree :: node where
  "built_tree = Dir False [(''src'', Dir False [(''dlib'', Dir False
      [(''setup.py'', File False),
       (''build'', Dir False [(''temp'', Dir False [(''CMakeCache.txt'', File True)])])])])]"

definition built_tree_ro_dir :: node where
  "built_tree_ro_dir = Dir False [(''src'', Dir False [(''dlib'', Dir False
      [(''setup.py'', File False),
       (''build'', Dir False [(''temp'', Dir False [(''CMakeFiles'', Dir True [])])])])])]"

definition windows_no_cmake :: host where
  "windows_no_cmake = \<lparr>platform_system = ''Windows'', sys_executable = ''python.exe'',
     sys_maxsize = 2 ^ 63 - 1, cpu_count = 8, run_proc = (\<lambda>cmd. NotFound)\<rparr>"

text \<open>A version token \<^verbatim>\<open>digits.digits.digits\<close>, written from its three numbers.\<close>

definition dotted :: "nat \<Rightarrow> nat \<Rightarrow> nat \<Rightarrow> string" where
  "dotted a b c = str_nat a @ ''.'' @ str_nat b @ ''.'' @ str_nat c"

section \<open>Properties of the option extraction\<close>

lemma append_switch_idle: "\<not> truthy k \<Longrightarrow> append_switch k arg opts = opts"
  by (auto simp: truthy_def append_switch_def split: option.splits)

lemma scan_step_pending:
  "truthy (opt_key s) \<Longrightarrow> arg \<in> set (sys_argv s) \<Longrightarrow>
   scan_step arg s = Inr (s\<lparr>cmake_extra_opts := append_switch (opt_key s) arg (cmake_extra_opts s),
                            opt_key := None, sys_argv := remove1 arg (sys_argv s)\<rparr>)"
  by (simp add: scan_step_def list_remove_def)

lemma scan_step_clean:
  "\<not> truthy (opt_key s) \<Longrightarrow> ''--clean'' \<in> set (sys_argv s) \<Longrightarrow>
   scan_step ''--clean'' s = Inr (s\<lparr>clean_build := True, sys_argv := remove1 ''--clean'' (sys_argv s)\<rparr>)"
  by (simp add: scan_step_def list_remove_def append_switch_idle)

lemma lower_flag_key:
  assumes "f \<in> set value_flags"
  shows "lower (drop 2 f) = drop 2 f" and "truthy (Some (drop 2 f))"
  using assms by (auto simp: value_flags_def lower_def lower_char_def truthy_def)

lemma flag_not_clean: "f \<in> set value_flags \<Longrightarrow> f \<noteq> ''--clean''"
  by (auto simp: value_flags_def)

lemma scan_step_flag:
  "\<not> truthy (opt_key s) \<Longrightarrow> f \<in> set value_flags \<Longrightarrow> f \<in> set (sys_argv s) \<Longrightarrow>
   scan_step f s = Inr (s\<lparr>opt_key := Some (drop 2 f), sys_argv := remove1 f (sys_argv s)\<rparr>)"
  by (auto simp add: scan_step_def list_remove_def append_switch_idle lower_flag_key(1)
        flag_not_clean)

lemma scan_step_other:
  "\<not> truthy (opt_key s) \<Longrightarrow> arg \<noteq> ''--clean'' \<Longrightarrow> arg \<notin> set value_flags \<Longrightarrow>
   scan_step arg s = Inr s"
  by (simp add: scan_step_def append_switch_idle)

lemma scan_step_cases:
  assumes "arg \<in> set (sys_argv s)"
  shows "\<exists>s'. scan_step arg s = Inr s' \<and>
           (sys_argv s' = sys_argv s \<and> arg \<noteq> ''--clean'' \<and> arg \<notin> set value_flags \<and> \<not> truthy (opt_key s)
            \<or> sys_argv s' = remove1 arg (sys_argv s))"
proof (cases "truthy (opt_key s)")
  case True
  then show ?thesis using assms by (simp add: scan_step_pending)
next
  case idle: False
  show ?thesis
  proof (cases "arg = ''--clean''")
    case True
    then show ?thesis using idle assms by (simp add: scan_step_clean)
  next
    case nc: False
    show ?thesis
    proof (cases "arg \<in> set value_flags")
      case True
      then show ?thesis using idle assms by (simp add: scan_step_flag)
    next
      case False
      then show ?thesis using idle nc by (simp add: scan_step_other)
    qed
  qed
qed

lemma scan_total:
  "mset xs \<subseteq># mset (sys_argv s) \<Longrightarrow> \<exists>s'. scan xs s = Inr s'"
proof (induction xs arbitrary: s)
  case Nil
  then show ?case by simp
next
  case (Cons x xs)
  from Cons.prems have xin: "x \<in> set (sys_argv s)"
    by (metis mset_subset_eq_insertD set_mset_mset mset.simps(2))
  from scan_step_cases[OF xin] obtain s' where
    st: "scan_step x s = Inr s'" and
    av: "sys_argv s' = sys_argv s \<or> sys_argv s' = remove1 x (sys_argv s)" by blast
  have "mset xs \<subseteq># mset (sys_argv s')"
  proof -
    from Cons.prems have "mset xs \<subseteq># mset (sys_argv s) - {#x#}"
      by (simp add: insert_subset_eq_iff)
    moreover have "mset (sys_argv s) - {#x#} \<subseteq># mset (sys_argv s)" by simp
    ultimately show ?thesis using av xin by (auto intro: subset_mset.order_trans)
  qed
  from Cons.IH[OF this] show ?case using st by simp
qed

lemma mset_tail_sub:
  assumes "mset (x # xs) \<subseteq># mset a"
  shows "x \<in> set a" and "mset xs \<subseteq># mset (remove1 x a)" and "mset xs \<subseteq># mset a"
proof -
  show xin: "x \<in> set a" using assms
    by (metis mset_subset_eq_insertD set_mset_mset mset.simps(2))
  from assms have "mset xs \<subseteq># mset a - {#x#}"
    by (simp add: insert_subset_eq_iff)
  then show "mset xs \<subseteq># mset (remove1 x a)" by simp
  have "mset xs \<subseteq># mset (x # xs)" by simp
  with assms show "mset xs \<subseteq># mset a" by (rule subset_mset.order_trans[rotated])
qed

lemma scan_switches:
  "\<not> truthy (opt_key s) \<Longrightarrow> mset xs \<subseteq># mset (sys_argv s) \<Longrightarrow>
   \<exists>s'. scan xs s = Inr s' \<and>
        cmake_extra_opts s' = cmake_extra_opts s @ spec_switches xs \<and>
        truthy (opt_key s') = dangling xs"
proof (induction xs arbitrary: s rule: dangling.induct)
  case 1
  then show ?case by simp
next
  case (2 x)
  have xin: "x \<in> set (sys_argv s)" using mset_tail_sub(1)[OF "2.prems"(2)] .
  show ?case
  proof (cases "x \<in> set value_flags")
    case True
    then show ?thesis using "2.prems"(1) xin lower_flag_key(2)[of x]
      by (simp add: scan_step_flag)
  next
    case nf: False
    show ?thesis
    proof (cases "x = ''--clean''")
      case True
      then show ?thesis using "2.prems"(1) xin nf by (simp add: scan_step_clean)
    next
      case False
      then show ?thesis using "2.prems"(1) nf by (simp add: scan_step_other)
    qed
  qed
next
  case (3 x v ys)
  have xin: "x \<in> set (sys_argv s)" using mset_tail_sub(1)[OF "3.prems"(2)] .
  have rest1: "mset (v # ys) \<subseteq># mset (remove1 x (sys_argv s))"
    using mset_tail_sub(2)[OF "3.prems"(2)] .
  have rest0: "mset (v # ys) \<subseteq># mset (sys_argv s)"
    using mset_tail_sub(3)[OF "3.prems"(2)] .
  show ?case
  proof (cases "x \<in> set value_flags")
    case flag: True
    define s1 where "s1 = s\<lparr>opt_key := Some (drop 2 x), sys_argv := remove1 x (sys_argv s)\<rparr>"
    have st1: "scan_step x s = Inr s1"
      using "3.prems"(1) flag xin by (simp add: scan_step_flag s1_def)
    have pend: "truthy (opt_key s1)" using lower_flag_key(2)[OF flag] by (simp add: s1_def)
    have vin: "v \<in> set (sys_argv s1)" using mset_tail_sub(1)[OF rest1] by (simp add: s1_def)
    define s2 where "s2 = s1\<lparr>cmake_extra_opts := append_switch (opt_key s1) v (cmake_extra_opts s1),
                            opt_key := None, sys_argv := remove1 v (sys_argv s1)\<rparr>"
    have st2: "scan_step v s1 = Inr s2" using pend vin by (simp add: scan_step_pending s2_def)
    have idle2: "\<not> truthy (opt_key s2)" by (simp add: s2_def truthy_def)
    have sub2: "mset ys \<subseteq># mset (sys_argv s2)"
      using mset_tail_sub(2)[OF rest1] by (simp add: s2_def s1_def)
    have sw: "cmake_extra_opts s2 = cmake_extra_opts s @ [switch_for x v]"
      using flag by (auto simp: s2_def s1_def append_switch_def switch_for_def value_flags_def)
    from "3.IH"(1)[OF flag idle2 sub2] obtain s' where
      "scan ys s2 = Inr s'" "cmake_extra_opts s' = cmake_extra_opts s2 @ spec_switches ys"
      "truthy (opt_key s') = dangling ys" by blast
    then show ?thesis using st1 st2 sw flag by simp
  next
    case nf: False
    show ?thesis
    proof (cases "x = ''--clean''")
      case True
      define s1 where "s1 = s\<lparr>clean_build := True, sys_argv := remove1 ''--clean'' (sys_argv s)\<rparr>"
      have st1: "scan_step x s = Inr s1"
        using True "3.prems"(1) xin by (simp add: scan_step_clean s1_def)
      have "\<not> truthy (opt_key s1)" using "3.prems"(1) by (simp add: s1_def)
      moreover have "mset (v # ys) \<subseteq># mset (sys_argv s1)" using rest1 True by (simp add: s1_def)
      ultimately obtain s' where
        "scan (v # ys) s1 = Inr s'" "cmake_extra_opts s' = cmake_extra_opts s1 @ spec_switches (v # ys)"
        "truthy (opt_key s') = dangling (v # ys)" using "3.IH"(2)[OF nf] by blast
      then show ?thesis using st1 nf by (simp add: s1_def)
    next
      case False
      have st1: "scan_step x s = Inr s" using False nf "3.prems"(1) by (simp add: scan_step_other)
      from "3.IH"(2)[OF nf "3.prems"(1) rest0] obtain s' where
        "scan (v # ys) s = Inr s'" "cmake_extra_opts s' = cmake_extra_opts s @ spec_switches (v # ys)"
        "truthy (opt_key s') = dangling (v # ys)" by blast
      then show ?thesis using st1 nf by simp
    qed
  qed
qed

lemma scan_flag_count:
  "mset xs \<subseteq># mset (sys_argv s) \<Longrightarrow> scan xs s = Inr s' \<Longrightarrow>
   f \<in> set value_flags \<or> f = ''--clean'' \<Longrightarrow>
   count (mset (sys_argv s')) f + count (mset xs) f = count (mset (sys_argv s)) f"
proof (induction xs arbitrary: s)
  case Nil
  then show ?case by simp
next
  case (Cons x xs)
  have xin: "x \<in> set (sys_argv s)" using mset_tail_sub(1)[OF Cons.prems(1)] .
  from scan_step_cases[OF xin] obtain s1 where
    st: "scan_step x s = Inr s1" and
    av: "sys_argv s1 = sys_argv s \<and> x \<noteq> ''--clean'' \<and> x \<notin> set value_flags
         \<or> sys_argv s1 = remove1 x (sys_argv s)" by blast
  have rest: "scan xs s1 = Inr s'" using Cons.prems(2) st by simp
  from av show ?case
  proof
    assume keep: "sys_argv s1 = sys_argv s \<and> x \<noteq> ''--clean'' \<and> x \<notin> set value_flags"
    then have "mset xs \<subseteq># mset (sys_argv s1)"
      using mset_tail_sub(3)[OF Cons.prems(1)] by simp
    from Cons.IH[OF this rest Cons.prems(3)] keep Cons.prems(3) show ?thesis by auto
  next
    assume rem: "sys_argv s1 = remove1 x (sys_argv s)"
    then have "mset xs \<subseteq># mset (sys_argv s1)"
      using mset_tail_sub(2)[OF Cons.prems(1)] by simp
    from Cons.IH[OF this rest Cons.prems(3)]
    have ih: "count (mset (sys_argv s')) f + count (mset xs) f
                = count (mset (sys_argv s)) f - (if x = f then 1 else 0)"
      using rem by simp
    have "x = f \<Longrightarrow> 0 < count (mset (sys_argv s)) f" using xin by simp
    with ih show ?thesis by (cases "x = f") simp_all
  qed
qed

lemma scan_step_extra_suffix:
  "arg \<in> set (sys_argv s) \<Longrightarrow> scan_step arg s = Inr s' \<Longrightarrow>
   scan_step arg (s\<lparr>sys_argv := sys_argv s @ zs\<rparr>) = Inr (s'\<lparr>sys_argv := sys_argv s' @ zs\<rparr>)"
  by (auto simp: scan_step_def list_remove_def Let_def remove1_append split: if_splits)

lemma scan_extra_suffix:
  "mset xs \<subseteq># mset (sys_argv s) \<Longrightarrow> scan xs s = Inr s' \<Longrightarrow>
   scan xs (s\<lparr>sys_argv := sys_argv s @ zs\<rparr>) = Inr (s'\<lparr>sys_argv := sys_argv s' @ zs\<rparr>)"
proof (induction xs arbitrary: s)
  case Nil
  then show ?case by simp
next
  case (Cons x xs)
  have xin: "x \<in> set (sys_argv s)" using mset_tail_sub(1)[OF Cons.prems(1)] .
  from scan_step_cases[OF xin] obtain s1 where
    st: "scan_step x s = Inr s1" and
    av: "sys_argv s1 = sys_argv s \<or> sys_argv s1 = remove1 x (sys_argv s)" by blast
  have rest: "scan xs s1 = Inr s'" using Cons.prems(2) st by simp
  have sub: "mset xs \<subseteq># mset (sys_argv s1)"
    using av mset_tail_sub(2,3)[OF Cons.prems(1)] by auto
  have "scan_step x (s\<lparr>sys_argv := sys_argv s @ zs\<rparr>) = Inr (s1\<lparr>sys_argv := sys_argv s1 @ zs\<rparr>)"
    using scan_step_extra_suffix[OF xin st] .
  then show ?case using Cons.IH[OF sub rest] by simp
qed

lemma scan_append:
  "scan (xs @ ys) s = (case scan xs s of Inl e \<Rightarrow> Inl e | Inr s' \<Rightarrow> scan ys s')"
  by (induction xs arbitrary: s) (auto split: sum.splits)

lemma scan_fresh:
  "\<not> truthy (opt_key s) \<Longrightarrow> sys_argv s = u @ xs \<Longrightarrow>
   set (u @ unconsumed xs) \<inter> set (consumed xs) = {} \<Longrightarrow>
   \<exists>s'. scan xs s = Inr s' \<and> sys_argv s' = u @ unconsumed xs"
proof (induction xs arbitrary: s u rule: unconsumed.induct)
  case 1
  then show ?case by simp
next
  case (2 x)
  show ?case
  proof (cases "x \<in> set value_flags")
    case True
    then show ?thesis using "2.prems" by (simp add: scan_step_flag remove1_append)
  next
    case nf: False
    show ?thesis
    proof (cases "x = ''--clean''")
      case True
      then show ?thesis using "2.prems" nf by (simp add: scan_step_clean remove1_append)
    next
      case False
      then show ?thesis using "2.prems" nf by (simp add: scan_step_other)
    qed
  qed
next
  case (3 x v ys)
  show ?case
  proof (cases "x \<in> set value_flags")
    case flag: True
    have xu: "x \<notin> set u" and vu: "v \<notin> set u" using "3.prems"(3) flag by auto
    define s1 where "s1 = s\<lparr>opt_key := Some (drop 2 x), sys_argv := u @ v # ys\<rparr>"
    have st1: "scan_step x s = Inr s1"
      using "3.prems"(1,2) flag xu by (simp add: scan_step_flag s1_def remove1_append)
    have pend: "truthy (opt_key s1)" using lower_flag_key(2)[OF flag] by (simp add: s1_def)
    define s2 where "s2 = s1\<lparr>cmake_extra_opts := append_switch (opt_key s1) v (cmake_extra_opts s1),
                            opt_key := None, sys_argv := u @ ys\<rparr>"
    have st2: "scan_step v s1 = Inr s2"
      using pend vu by (simp add: scan_step_pending s2_def s1_def remove1_append)
    have idle2: "\<not> truthy (opt_key s2)" by (simp add: s2_def truthy_def)
    have a2: "sys_argv s2 = u @ ys" by (simp add: s2_def)
    have fr: "set (u @ unconsumed ys) \<inter> set (consumed ys) = {}"
      using "3.prems"(3) flag by auto
    from "3.IH"(1)[OF flag idle2 a2 fr] show ?thesis using st1 st2 flag by simp
  next
    case nf: False
    show ?thesis
    proof (cases "x = ''--clean''")
      case True
      have xu: "x \<notin> set u" using "3.prems"(3) nf True by auto
      define s1 where "s1 = s\<lparr>clean_build := True, sys_argv := u @ v # ys\<rparr>"
      have st1: "scan_step x s = Inr s1"
        using True "3.prems"(1,2) xu by (simp add: scan_step_clean s1_def remove1_append)
      have idle: "\<not> truthy (opt_key s1)" using "3.prems"(1) by (simp add: s1_def)
      have a1: "sys_argv s1 = u @ v # ys" by (simp add: s1_def)
      have fr: "set (u @ unconsumed (v # ys)) \<inter> set (consumed (v # ys)) = {}"
        using "3.prems"(3) nf True by auto
      from "3.IH"(2)[OF nf True idle a1 fr] show ?thesis using st1 nf True by simp
    next
      case False
      have st1: "scan_step x s = Inr s" using False nf "3.prems"(1) by (simp add: scan_step_other)
      have a1: "sys_argv s = (u @ [x]) @ v # ys" using "3.prems"(2) by simp
      have fr: "set ((u @ [x]) @ unconsumed (v # ys)) \<inter> set (consumed (v # ys)) = {}"
        using "3.prems"(3) nf False by auto
      from "3.IH"(3)[OF nf False "3.prems"(1) a1 fr] show ?thesis using st1 nf False by simp
    qed
  qed
qed

lemma extraction_total: "\<exists>r. get_extra_cmake_options argv = Inr r"
proof -
  have "mset argv \<subseteq># mset (sys_argv (scan_init argv))" by (simp add: scan_init_def)
  from scan_total[OF this] show ?thesis by (auto simp: get_extra_cmake_options_def)
qed

lemma extraction_drops_flags:
  assumes "get_extra_cmake_options argv = Inr (r, a)"
    and "f \<in> set value_flags \<or> f = ''--clean''"
  shows "f \<notin> set a"
proof -
  from assms(1) obtain s' where sc: "scan argv (scan_init argv) = Inr s'" and a: "a = sys_argv s'"
    by (auto simp: get_extra_cmake_options_def split: sum.splits)
  have sub0: "mset argv \<subseteq># mset (sys_argv (scan_init argv))" by (simp add: scan_init_def)
  have "count (mset (sys_argv s')) f + count (mset argv) f
          = count (mset (sys_argv (scan_init argv))) f"
    using scan_flag_count[OF sub0 sc assms(2)] .
  then have "count (mset (sys_argv s')) f = 0" by (simp add: scan_init_def)
  then show ?thesis using a by (simp add: count_eq_zero_iff)
qed

lemma extraction_keeps_order_when_fresh:
  assumes "set (unconsumed argv) \<inter> set (consumed argv) = {}"
  shows "\<exists>sw c. get_extra_cmake_options argv = Inr ((sw, c), unconsumed argv)"
proof -
  have "\<not> truthy (opt_key (scan_init argv))" by (simp add: scan_init_def truthy_def)
  moreover have "sys_argv (scan_init argv) = [] @ argv" by (simp add: scan_init_def)
  moreover have "set ([] @ unconsumed argv) \<inter> set (consumed argv) = {}" using assms by simp
  ultimately obtain s' where "scan argv (scan_init argv) = Inr s'" "sys_argv s' = [] @ unconsumed argv"
    using scan_fresh by blast
  then show ?thesis by (simp add: get_extra_cmake_options_def)
qed

text \<open>
  Claim C1. For a well-formed flag sequence the list left in \<^verbatim>\<open>sys.argv\<close> should be
  the unconsumed tokens in their original order. \<^verbatim>\<open>sys.argv.remove(arg)\<close> deletes
  the first element equal to \<open>arg\<close>, not the one at the position being scanned: when a
  flag's value also occurs earlier as an ordinary token, the earlier occurrence is deleted and
  the value stays behind, after tokens it used to precede. With
  \<^verbatim>\<open>setup.py build -g install --compiler-flags -g\<close> the \<^verbatim>\<open>-g\<close> of the
  \<^verbatim>\<open>build\<close> command ends up behind \<^verbatim>\<open>install\<close>. What does hold
  is shown above: no flag token is ever left (\<open>extraction_drops_flags\<close>), and the order
  is kept whenever no consumed token equals a kept one
  (\<open>extraction_keeps_order_when_fresh\<close>).
\<close>

theorem extraction_reorders_kept_tokens:
  "well_formed [''setup.py'', ''build'', ''-g'', ''install'', ''--compiler-flags'', ''-g'']
   \<and> get_extra_cmake_options [''setup.py'', ''build'', ''-g'', ''install'', ''--compiler-flags'', ''-g'']
       = Inr (([''-DCMAKE_CXX_FLAGS=-g''], False), [''setup.py'', ''build'', ''install'', ''-g''])
   \<and> unconsumed [''setup.py'', ''build'', ''-g'', ''install'', ''--compiler-flags'', ''-g'']
       = [''setup.py'', ''build'', ''-g'', ''install'']"
  by code_simp

text \<open>
  Claim C7. The example \<^verbatim>\<open>--yes FOO --no BAR --compiler-flags "-O2 -Wall"\<close> (with and
  without the script name in front) yields exactly the three switches, in that order; and for
  every argument list the switches returned are those of the grammar, read left to right, one
  per flag in the order of the flags.
\<close>

theorem switches_in_flag_order:
  "get_extra_cmake_options
     [''setup.py'', ''--yes'', ''FOO'', ''--no'', ''BAR'', ''--compiler-flags'', ''-O2 -Wall'']
     = Inr (([''-DFOO=yes'', ''-DBAR=no'', ''-DCMAKE_CXX_FLAGS=-O2 -Wall''], False), [''setup.py''])
   \<and> get_extra_cmake_options [''--yes'', ''FOO'', ''--no'', ''BAR'', ''--compiler-flags'', ''-O2 -Wall'']
     = Inr (([''-DFOO=yes'', ''-DBAR=no'', ''-DCMAKE_CXX_FLAGS=-O2 -Wall''], False), [])
   \<and> (\<forall>argv. \<exists>c a. get_extra_cmake_options argv = Inr ((spec_switches argv, c), a))"
proof (intro conjI allI)
  show "get_extra_cmake_options
     [''setup.py'', ''--yes'', ''FOO'', ''--no'', ''BAR'', ''--compiler-flags'', ''-O2 -Wall'']
     = Inr (([''-DFOO=yes'', ''-DBAR=no'', ''-DCMAKE_CXX_FLAGS=-O2 -Wall''], False), [''setup.py''])"
    by code_simp
  show "get_extra_cmake_options [''--yes'', ''FOO'', ''--no'', ''BAR'', ''--compiler-flags'', ''-O2 -Wall'']
     = Inr (([''-DFOO=yes'', ''-DBAR=no'', ''-DCMAKE_CXX_FLAGS=-O2 -Wall''], False), [])"
    by code_simp
next
  fix argv
  have "\<not> truthy (opt_key (scan_init argv))" by (simp add: scan_init_def truthy_def)
  moreover have "mset argv \<subseteq># mset (sys_argv (scan_init argv))" by (simp add: scan_init_def)
  ultimately obtain s' where "scan argv (scan_init argv) = Inr s'"
    "cmake_extra_opts s' = cmake_extra_opts (scan_init argv) @ spec_switches argv"
    using scan_switches by blast
  then show "\<exists>c a. get_extra_cmake_options argv = Inr ((spec_switches argv, c), a)"
    by (simp add: get_extra_cmake_options_def scan_init_def)
qed

lemma final_flag_same_result:
  assumes "f \<in> set value_flags" and "\<not> dangling xs"
  shows "\<exists>sw c a. get_extra_cmake_options (xs @ [f]) = Inr ((sw, c), a)
           \<and> get_extra_cmake_options xs = Inr ((sw, c), a) \<and> f \<notin> set a"
proof -
  have idle0: "\<not> truthy (opt_key (scan_init xs))" by (simp add: scan_init_def truthy_def)
  have sub0: "mset xs \<subseteq># mset (sys_argv (scan_init xs))" by (simp add: scan_init_def)
  from scan_switches[OF idle0 sub0] assms(2) obtain s' where
    sc: "scan xs (scan_init xs) = Inr s'" and idle: "\<not> truthy (opt_key s')" by auto
  have "count (mset (sys_argv s')) f + count (mset xs) f = count (mset (sys_argv (scan_init xs))) f"
    using scan_flag_count[OF sub0 sc] assms(1) by blast
  then have "count (mset (sys_argv s')) f = 0" by (simp add: scan_init_def)
  then have fout: "f \<notin> set (sys_argv s')" by (simp add: count_eq_zero_iff)
  have init: "scan_init (xs @ [f]) = (scan_init xs)\<lparr>sys_argv := sys_argv (scan_init xs) @ [f]\<rparr>"
    by (simp add: scan_init_def)
  define s1 where "s1 = s'\<lparr>sys_argv := sys_argv s' @ [f]\<rparr>"
  have pre: "scan xs (scan_init (xs @ [f])) = Inr s1"
    unfolding init s1_def using scan_extra_suffix[OF sub0 sc] .
  have "scan_step f s1 = Inr (s1\<lparr>opt_key := Some (drop 2 f), sys_argv := remove1 f (sys_argv s1)\<rparr>)"
    using idle assms(1) by (simp add: scan_step_flag s1_def)
  moreover have "remove1 f (sys_argv s1) = sys_argv s'"
    using fout by (simp add: s1_def remove1_append)
  ultimately have "scan (xs @ [f]) (scan_init (xs @ [f]))
       = Inr (s1\<lparr>opt_key := Some (drop 2 f), sys_argv := sys_argv s'\<rparr>)"
    using pre by (simp add: scan_append)
  then have "get_extra_cmake_options (xs @ [f])
       = Inr ((cmake_extra_opts s', clean_build s'), sys_argv s')"
    by (simp add: get_extra_cmake_options_def s1_def)
  moreover have "get_extra_cmake_options xs = Inr ((cmake_extra_opts s', clean_build s'), sys_argv s')"
    using sc by (simp add: get_extra_cmake_options_def)
  ultimately show ?thesis using fout by blast
qed

text \<open>
  Claim C9, as stated for every list that ends in a value flag, fails where that token is
  itself the value of the flag before it: in \<^verbatim>\<open>setup.py --yes --no\<close> the pending
  \<^verbatim>\<open>--yes\<close> consumes the final \<^verbatim>\<open>--no\<close> before the flag test is reached, and the
  switch \<^verbatim>\<open>-D--no=yes\<close> is emitted for it.
\<close>

theorem final_flag_taken_as_value:
  "''--no'' \<in> set value_flags
   \<and> last [''setup.py'', ''--yes'', ''--no''] = ''--no''
   \<and> get_extra_cmake_options [''setup.py'', ''--yes'', ''--no'']
       = Inr (([''-D--no=yes''], False), [''setup.py''])
   \<and> get_extra_cmake_options [''setup.py'', ''--yes'']
       = Inr (([], False), [''setup.py''])"
  by code_simp

text \<open>
  Claim C9, amended. For every list that ends in a value flag the call returns normally and
  that token is not left among the arguments. When the token stands in flag position (the
  tokens before it leave no flag waiting for a value), no switch is emitted for it: the
  switches, the clean flag and the remaining arguments are those of the list without it.
\<close>

theorem dangling_flag_ignored:
  assumes "f \<in> set value_flags"
  shows "\<exists>sw c a. get_extra_cmake_options (xs @ [f]) = Inr ((sw, c), a) \<and> f \<notin> set a
           \<and> (\<not> dangling xs \<longrightarrow> get_extra_cmake_options xs = Inr ((sw, c), a))"
proof (cases "dangling xs")
  case False
  from final_flag_same_result[OF assms False] show ?thesis by blast
next
  case True
  from extraction_total[of "xs @ [f]"] obtain sw c a where
    r: "get_extra_cmake_options (xs @ [f]) = Inr ((sw, c), a)" by (metis surj_pair)
  from assms have "f \<in> set value_flags \<or> f = ''--clean''" by simp
  from extraction_drops_flags[OF r this] have "f \<notin> set a" .
  with r True show ?thesis by blast
qed

theorem dangling_flag_ignored_witness:
  "''--yes'' \<in> set value_flags \<and> \<not> dangling [''setup.py'', ''build'']
   \<and> (\<exists>sw c a. get_extra_cmake_options ([''setup.py'', ''build''] @ [''--yes'']) = Inr ((sw, c), a)
           \<and> ''--yes'' \<notin> set a
           \<and> get_extra_cmake_options [''setup.py'', ''build''] = Inr ((sw, c), a))"
proof -
  have h1: "''--yes'' \<in> set value_flags" by (simp add: value_flags_def)
  have h2: "\<not> dangling [''setup.py'', ''build'']" by (simp add: value_flags_def)
  from dangling_flag_ignored[OF h1, of "[''setup.py'', ''build'']"] h1 h2 show ?thesis by blast
qed

section \<open>Properties of the version reading\<close>

lemma tail_match_unfold:
  "tail_match rest =
     (if dropWhile (\<lambda>c. c \<noteq> dquote) (rev (takeWhile (\<lambda>c. c \<noteq> newline) rest)) = [] then None
      else if dropWhile (\<lambda>c. c \<noteq> dquote)
                (tl (dropWhile (\<lambda>c. c \<noteq> dquote) (rev (takeWhile (\<lambda>c. c \<noteq> newline) rest)))) = []
           then None
           else Some (rev (takeWhile (\<lambda>c. c \<noteq> dquote)
                        (tl (dropWhile (\<lambda>c. c \<noteq> dquote) (rev (takeWhile (\<lambda>c. c \<noteq> newline) rest))))),
                      length (dropWhile (\<lambda>c. c \<noteq> dquote) (rev (takeWhile (\<lambda>c. c \<noteq> newline) rest)))))"
  by (simp only: tail_match_def Let_def)

lemma dropWhile_neq_Nil: "dropWhile (\<lambda>c. c \<noteq> q) xs = [] \<longleftrightarrow> q \<notin> set xs"
  by (induction xs) auto

lemma dropWhile_neq_Cons: "q \<in> set xs \<Longrightarrow> dropWhile (\<lambda>c. c \<noteq> q) xs = q # tl (dropWhile (\<lambda>c. c \<noteq> q) xs)"
  by (induction xs) auto

lemma second_quote: "2 \<le> count_list xs q \<Longrightarrow> q \<in> set (tl (dropWhile (\<lambda>c. c \<noteq> q) xs))"
proof (induction xs)
  case Nil
  then show ?case by simp
next
  case (Cons x xs)
  show ?case
  proof (cases "x = q")
    case True
    with Cons.prems have "0 < count_list xs q" by simp
    then have "q \<in> set xs" by (metis count_list_0_iff less_numeral_extra(3))
    with True show ?thesis by simp
  next
    case False
    with Cons show ?thesis by simp
  qed
qed

lemma tail_match_complete:
  assumes "rest = a @ dquote # g @ dquote # post" "newline \<notin> set a" "newline \<notin> set g"
  shows "\<exists>g' n. tail_match rest = Some (g', n)"
proof -
  define line where "line = takeWhile (\<lambda>c. c \<noteq> newline) rest"
  define r1 where "r1 = dropWhile (\<lambda>c. c \<noteq> dquote) (rev line)"
  have unf: "tail_match rest =
     (if r1 = [] then None
      else if dropWhile (\<lambda>c. c \<noteq> dquote) (tl r1) = [] then None
           else Some (rev (takeWhile (\<lambda>c. c \<noteq> dquote) (tl r1)), length r1))"
    unfolding r1_def line_def by (rule tail_match_unfold)
  have qn: "dquote \<noteq> newline" by (simp add: dquote_def newline_def)
  have split: "rest = (a @ dquote # g @ [dquote]) @ post" using assms(1) by simp
  have clean: "\<And>x. x \<in> set (a @ dquote # g @ [dquote]) \<Longrightarrow> x \<noteq> newline"
    using assms(2,3) qn by auto
  have line: "line = (a @ dquote # g @ [dquote]) @ takeWhile (\<lambda>c. c \<noteq> newline) post"
    unfolding line_def split by (rule takeWhile_append2) (rule clean)
  have "2 \<le> count_list (rev line) dquote" by (simp add: line)
  then have q2: "dquote \<in> set (tl r1)" unfolding r1_def by (rule second_quote)
  then have "r1 \<noteq> []" by auto
  moreover have "dropWhile (\<lambda>c. c \<noteq> dquote) (tl r1) \<noteq> []" using q2 by (simp add: dropWhile_neq_Nil)
  ultimately show ?thesis using unf by simp
qed

lemma tail_match_sound:
  assumes "tail_match rest = Some (g, n)"
  shows "\<exists>a post. rest = a @ dquote # g @ dquote # post \<and> newline \<notin> set a \<and> newline \<notin> set g"
proof -
  define line where "line = takeWhile (\<lambda>c. c \<noteq> newline) rest"
  define r1 where "r1 = dropWhile (\<lambda>c. c \<noteq> dquote) (rev line)"
  define r3 where "r3 = dropWhile (\<lambda>c. c \<noteq> dquote) (tl r1)"
  define t1 where "t1 = takeWhile (\<lambda>c. c \<noteq> dquote) (rev line)"
  define t2 where "t2 = takeWhile (\<lambda>c. c \<noteq> dquote) (tl r1)"
  have unf: "tail_match rest =
     (if r1 = [] then None
      else if r3 = [] then None else Some (rev t2, length r1))"
    unfolding r1_def line_def r3_def t2_def by (rule tail_match_unfold)
  have ne1: "r1 \<noteq> []" using assms unf by (cases "r1 = []") simp_all
  have ne3: "r3 \<noteq> []" using assms unf ne1 by (cases "r3 = []") simp_all
  have g: "g = rev t2" using assms unf ne1 ne3 by simp
  have "dquote \<in> set (rev line)" using ne1 unfolding r1_def by (simp only: dropWhile_neq_Nil) simp
  then have r1: "r1 = dquote # tl r1" unfolding r1_def by (rule dropWhile_neq_Cons)
  have "dquote \<in> set (tl r1)" using ne3 unfolding r3_def by (simp only: dropWhile_neq_Nil) simp
  then have r3: "r3 = dquote # tl r3" unfolding r3_def by (rule dropWhile_neq_Cons)
  have "rev line = t1 @ r1" unfolding t1_def r1_def by simp
  also have "r1 = dquote # t2 @ r3"
  proof -
    have "tl r1 = t2 @ r3" unfolding t2_def r3_def by simp
    with r1 show ?thesis by metis
  qed
  finally have "rev line = t1 @ dquote # t2 @ dquote # tl r3" using r3 by metis
  then have "rev (rev line) = rev (t1 @ dquote # t2 @ dquote # tl r3)" by (rule arg_cong)
  then have line: "line = rev (tl r3) @ dquote # rev t2 @ dquote # rev t1" by simp
  have nl: "newline \<notin> set line" unfolding line_def by (auto dest: set_takeWhileD)
  have "rest = line @ dropWhile (\<lambda>c. c \<noteq> newline) rest" unfolding line_def by simp
  then have "rest = rev (tl r3) @ dquote # g @ dquote # (rev t1 @ dropWhile (\<lambda>c. c \<noteq> newline) rest)"
    using line g by simp
  moreover have "newline \<notin> set (rev (tl r3))" "newline \<notin> set g" using nl line g by auto
  ultimately show ?thesis by blast
qed

lemma match_here_complete:
  assumes "s = lit @ a @ dquote # g @ dquote # post" "newline \<notin> set a" "newline \<notin> set g"
  shows "\<exists>g' n. match_here lit s = Some (g', n)"
proof -
  have p: "prefix lit s" using assms(1) by simp
  have "drop (length lit) s = a @ dquote # g @ dquote # post" using assms(1) by simp
  from tail_match_complete[OF this assms(2,3)] obtain g' n where
    "tail_match (drop (length lit) s) = Some (g', n)" by blast
  with p show ?thesis by (simp add: match_here_def)
qed

lemma match_here_sound:
  assumes "match_here lit s = Some (g, n)"
  shows "\<exists>a post. s = lit @ a @ dquote # g @ dquote # post \<and> newline \<notin> set a \<and> newline \<notin> set g"
proof -
  from assms have p: "prefix lit s" by (simp add: match_here_def split: if_splits)
  from assms p obtain m where tm: "tail_match (drop (length lit) s) = Some (g, m)"
    by (auto simp: match_here_def split: option.splits)
  from tail_match_sound[OF tm] obtain a post where
    d: "drop (length lit) s = a @ dquote # g @ dquote # post" and
    n: "newline \<notin> set a" "newline \<notin> set g" by blast
  from p obtain r where sr: "s = lit @ r" by (auto simp: prefix_def)
  then have "r = a @ dquote # g @ dquote # post" using d by simp
  with sr n show ?thesis by blast
qed

lemma findall_here: "match_here lit s = Some (g, n) \<Longrightarrow> findall lit s = g # findall lit (drop n s)"
  by (subst findall.simps) simp

lemma findall_skip: "match_here lit (c # cs) = None \<Longrightarrow> findall lit (c # cs) = findall lit cs"
  by (subst findall.simps) simp

lemma findall_Nil: "match_here lit [] = None \<Longrightarrow> findall lit [] = []"
  by (subst findall.simps) simp

lemma findall_after_prefix:
  "match_here lit s = Some (g, n) \<Longrightarrow> findall lit (pre @ s) \<noteq> []"
proof (induction pre)
  case Nil
  then show ?case by (simp add: findall_here)
next
  case (Cons c pre)
  show ?case
  proof (cases "match_here lit (c # pre @ s)")
    case None
    then show ?thesis using Cons by (simp add: findall_skip)
  next
    case (Some r)
    then show ?thesis by (cases r) (simp add: findall_here)
  qed
qed

lemma findall_nonempty_matches: "findall lit s \<noteq> [] \<Longrightarrow> field_matches lit s"
proof (induction s)
  case Nil
  show ?case
  proof (cases "match_here lit []")
    case None
    with Nil show ?thesis by (simp add: findall_Nil)
  next
    case (Some r)
    obtain g n where "r = (g, n)" by (cases r)
    with Some match_here_sound[of lit "[]" g n] show ?thesis by simp
  qed
next
  case (Cons c cs)
  show ?case
  proof (cases "match_here lit (c # cs)")
    case None
    with Cons have "field_matches lit cs" by (simp add: findall_skip)
    then obtain pre a g post where
      "cs = pre @ lit @ a @ dquote # g @ dquote # post" "newline \<notin> set a" "newline \<notin> set g"
      unfolding field_matches_def by blast
    then have "c # cs = (c # pre) @ lit @ a @ dquote # g @ dquote # post \<and> newline \<notin> set a \<and> newline \<notin> set g"
      by simp
    then show ?thesis unfolding field_matches_def by blast
  next
    case (Some r)
    obtain g n where "r = (g, n)" by (cases r)
    with Some match_here_sound[of lit "c # cs" g n] obtain a post where
      "c # cs = [] @ lit @ a @ dquote # g @ dquote # post \<and> newline \<notin> set a \<and> newline \<notin> set g"
      by auto
    then show ?thesis unfolding field_matches_def by blast
  qed
qed

lemma findall_empty_iff: "findall lit text = [] \<longleftrightarrow> \<not> field_matches lit text"
proof
  assume e: "findall lit text = []"
  show "\<not> field_matches lit text"
  proof
    assume "field_matches lit text"
    then obtain pre a g post where
      t: "text = pre @ (lit @ a @ dquote # g @ dquote # post)" and
      n: "newline \<notin> set a" "newline \<notin> set g"
      unfolding field_matches_def by auto
    from match_here_complete[OF refl n] obtain g' k where
      "match_here lit (lit @ a @ dquote # g @ dquote # post) = Some (g', k)" by blast
    from findall_after_prefix[OF this, of pre] e t show False by simp
  qed
next
  assume "\<not> field_matches lit text"
  then show "findall lit text = []" using findall_nonempty_matches by blast
qed

text \<open>
  Claim C3, as stated, asks for an error that names the missing field. The function indexes
  the empty result of \<^verbatim>\<open>re.findall\<close>, so what is raised is the IndexError of the
  list access: a file without the PATCH line and a file without the MAJOR line fail with the
  very same exception, which carries no field name.
\<close>

theorem missing_field_error_names_no_field:
  "read_version_from_cmakelists without_patch = Inl IndexError
   \<and> read_version_from_cmakelists without_major = Inl IndexError"
  by code_simp

text \<open>
  Claim C3, amended: for every text in which one of the three field patterns has no match,
  the function fails, with IndexError.
\<close>

theorem missing_field_raises_index_error:
  assumes "\<not> field_matches major_lit text \<or> \<not> field_matches minor_lit text
           \<or> \<not> field_matches patch_lit text"
  shows "read_version_from_cmakelists text = Inl IndexError"
proof -
  from assms have "findall major_lit text = [] \<or> findall minor_lit text = []
      \<or> findall patch_lit text = []" by (simp add: findall_empty_iff)
  then show ?thesis
    by (auto simp: read_version_from_cmakelists_def first_item_def split: list.splits sum.splits)
qed

theorem missing_field_raises_index_error_witness:
  "\<not> field_matches patch_lit without_patch
   \<and> read_version_from_cmakelists without_patch = Inl IndexError"
proof -
  have "findall patch_lit without_patch = []" by code_simp
  then have h: "\<not> field_matches patch_lit without_patch" by (simp add: findall_empty_iff)
  then have "\<not> field_matches major_lit without_patch \<or> \<not> field_matches minor_lit without_patch
      \<or> \<not> field_matches patch_lit without_patch" by blast
  from missing_field_raises_index_error[OF this] h show ?thesis by blast
qed

lemma read_version_example: "read_version_from_cmakelists cm1 = Inr ''19.24.2''"
  by code_simp

section \<open>Properties of the build command\<close>

lemma num_cores_half: "num_cores h = int ((cpu_count h + 1) div 2)"
proof -
  define n where "n = cpu_count h"
  have "\<lceil>real n / 2\<rceil> = int ((n + 1) div 2)"
  proof (rule ceiling_unique)
    show "of_int (int ((n + 1) div 2)) - 1 < real n / 2"
      by (cases "even n") (auto elim!: evenE oddE)
    show "real n / 2 \<le> of_int (int ((n + 1) div 2))"
      by (cases "even n") (auto elim!: evenE oddE)
  qed
  then show ?thesis by (simp add: num_cores_def n_def)
qed

text \<open>
  Claim C6. Off Windows the build arguments end in \<^verbatim>\<open>-j\<close> followed by the job count,
  and the job count \<open>k\<close> is the number of logical CPUs halved and rounded up: the one
  integer with \<open>cpu_count \<le> 2k \<le> cpu_count + 1\<close>. Eight CPUs and seven CPUs both give
  \<^verbatim>\<open>-j4\<close>.
\<close>

theorem posix_job_count:
  assumes "platform_system h \<noteq> ''Windows''"
  shows "(\<exists>k. build_args h self = [''--config'', cfg self, ''--'', ''-j'' @ str_nat k]
              \<and> num_cores h = int k \<and> cpu_count h \<le> 2 * k \<and> 2 * k \<le> cpu_count h + 1)
         \<and> (cpu_count h = 8 \<or> cpu_count h = 7
              \<longrightarrow> build_args h self = [''--config'', cfg self, ''--'', ''-j4''])"
proof -
  define k where "k = (cpu_count h + 1) div 2"
  have nc: "num_cores h = int k" by (simp add: num_cores_half k_def)
  have ba: "build_args h self = [''--config'', cfg self, ''--'', ''-j'' @ str_nat k]"
    using assms by (simp add: build_args_def nc py_str_def)
  have bounds: "cpu_count h \<le> 2 * k \<and> 2 * k \<le> cpu_count h + 1" unfolding k_def by presburger
  have four: "cpu_count h = 8 \<or> cpu_count h = 7 \<Longrightarrow> k = 4" unfolding k_def by auto
  have "str_nat 4 = ''4''" by code_simp
  with ba nc bounds four show ?thesis by auto
qed

theorem posix_job_count_witness:
  "platform_system linux_no_cmake \<noteq> ''Windows'' \<and> cpu_count linux_no_cmake = 7
   \<and> build_args linux_no_cmake dlib_build = [''--config'', ''Release'', ''--'', ''-j4'']"
proof -
  have h: "platform_system linux_no_cmake \<noteq> ''Windows''" by (simp add: linux_no_cmake_def)
  have c: "cpu_count linux_no_cmake = 7" by (simp add: linux_no_cmake_def)
  have "cfg dlib_build = ''Release''" by (simp add: cfg_def dlib_build_def)
  with posix_job_count[OF h, of dlib_build] h c show ?thesis by simp
qed

lemma configure_is_not_build: "configure_cmd h opts self ext \<noteq> build_cmd h self"
  by (simp add: configure_cmd_def build_cmd_def cmake_args_def)

text \<open>
  Claim C4. When the build directory has been prepared and the configure command exits with
  a status other than zero, \<^verbatim>\<open>build_extension\<close> raises the CalledProcessError of that
  command, which carries the status, and the only call added is the configure command
  itself: the build command, a different command, is not run.
\<close>

theorem configure_failure_stops_build:
  assumes "prepare_build_folder clean (build_temp self) w = (None, w1)"
    and "run_proc h (configure_cmd h opts self ext) = Exited rc out"
    and "rc \<noteq> 0"
  shows "build_extension h opts clean self ext w =
           (Some (CalledProcessError rc (configure_cmd h opts self ext)),
            w1\<lparr>events := events w1 @ [ProcCall (configure_cmd h opts self ext) (Some (build_temp self))]\<rparr>)
         \<and> configure_cmd h opts self ext \<noteq> build_cmd h self"
  using assms configure_is_not_build[of h opts self ext]
  by (simp add: build_extension_def check_call_def)

theorem configure_failure_stops_build_witness:
  "prepare_build_folder False (build_temp dlib_build) \<lparr>fs = built_tree, events = []\<rparr>
     = (None, \<lparr>fs = built_tree, events = []\<rparr>)
   \<and> run_proc exit_one (configure_cmd exit_one [] dlib_build (hd (extensions dlib_build))) = Exited 1 []
   \<and> (1::int) \<noteq> 0
   \<and> build_extension exit_one [] False dlib_build (hd (extensions dlib_build))
        \<lparr>fs = built_tree, events = []\<rparr>
      = (Some (CalledProcessError 1 (configure_cmd exit_one [] dlib_build (hd (extensions dlib_build)))),
         \<lparr>fs = built_tree,
          events = [ProcCall (configure_cmd exit_one [] dlib_build (hd (extensions dlib_build)))
                      (Some (build_temp dlib_build))]\<rparr>)"
proof -
  have p: "prepare_build_folder False (build_temp dlib_build) \<lparr>fs = built_tree, events = []\<rparr>
     = (None, \<lparr>fs = built_tree, events = []\<rparr>)"
    by (simp add: prepare_build_folder_def dlib_build_def built_tree_def)
  have r: "run_proc exit_one (configure_cmd exit_one [] dlib_build (hd (extensions dlib_build))) = Exited 1 []"
    by (simp add: exit_one_def)
  have n: "(1::int) \<noteq> 0" by simp
  from configure_failure_stops_build[OF p r n] p r n show ?thesis by simp
qed

text \<open>
  Claim C5, amended: on Windows, when \<^verbatim>\<open>cmake\<close> cannot be started, \<^verbatim>\<open>run\<close> fails
  with the RuntimeError whose message lists the names of all extensions, and the version
  query is the only call made: nothing is configured or built, and the tree is untouched.
\<close>

theorem windows_tool_missing:
  assumes "platform_system h = ''Windows''" and "run_proc h [''cmake'', ''--version''] = NotFound"
  shows "run h opts clean self w =
           (Some (RuntimeError (''CMake must be installed to build the following extensions: ''
                                  @ join '', '' (map name (extensions self)))),
            w\<lparr>events := events w @ [ProcCall [''cmake'', ''--version''] None]\<rparr>)"
  using assms by (simp add: run_def get_cmake_version_def check_output_def is_OSError_def)

theorem windows_tool_missing_witness:
  "platform_system windows_no_cmake = ''Windows''
   \<and> run_proc windows_no_cmake [''cmake'', ''--version''] = NotFound
   \<and> run windows_no_cmake [] False dlib_build \<lparr>fs = src_tree, events = []\<rparr> =
         (Some (RuntimeError ''CMake must be installed to build the following extensions: dlib''),
          \<lparr>fs = src_tree, events = [ProcCall [''cmake'', ''--version''] None]\<rparr>)"
proof -
  have p: "platform_system windows_no_cmake = ''Windows''" by (simp add: windows_no_cmake_def)
  have r: "run_proc windows_no_cmake [''cmake'', ''--version''] = NotFound"
    by (simp add: windows_no_cmake_def)
  from windows_tool_missing[OF p r, of "[]" False dlib_build "\<lparr>fs = src_tree, events = []\<rparr>"]
  have "run windows_no_cmake [] False dlib_build \<lparr>fs = src_tree, events = []\<rparr> =
         (Some (RuntimeError ''CMake must be installed to build the following extensions: dlib''),
          \<lparr>fs = src_tree, events = [ProcCall [''cmake'', ''--version''] None]\<rparr>)"
    by (simp add: dlib_build_def)
  with p r show ?thesis by simp
qed

text \<open>
  Claim C5, as stated for every platform, fails off Windows, where \<^verbatim>\<open>run\<close> asks for no
  version: on Linux without \<^verbatim>\<open>cmake\<close> the build directory is created first, the
  configure command is attempted, and what is raised is the OSError of that attempt, which
  names no extension.
\<close>

theorem posix_tool_missing_surfaces_late:
  "run linux_no_cmake [] False dlib_build \<lparr>fs = src_tree, events = []\<rparr> =
     (Some (OSError ENOENT),
      \<lparr>fs = Dir False [(''src'', Dir False [(''dlib'', Dir False
              [(''setup.py'', File False), (''build'', Dir False [(''temp'', Dir False [])])])])],
       events = [MakedirsCall [''src'', ''dlib'', ''build'', ''temp''],
                 ProcCall [''cmake'', ''/src/dlib/tools/python'',
                           ''-DCMAKE_LIBRARY_OUTPUT_DIRECTORY=/src/dlib/build/lib'',
                           ''-DPYTHON_EXECUTABLE=/usr/bin/python'', ''-DCMAKE_BUILD_TYPE=Release'']
                          (Some [''src'', ''dlib'', ''build'', ''temp''])]\<rparr>)"
  by (simp add: run_def linux_no_cmake_def dlib_build_def src_tree_def build_extension_def
        prepare_build_folder_def makedirs_def check_call_def configure_cmd_def cmake_args_def cfg_def)

text \<open>
  The same holds for every host other than Windows, whenever there is an extension to build,
  its build directory has been prepared and the configure command cannot be started.
\<close>

lemma posix_tool_missing:
  assumes "platform_system h \<noteq> ''Windows''"
    and "extensions self = ext # exts"
    and "prepare_build_folder clean (build_temp self) w = (None, w1)"
    and "run_proc h (configure_cmd h opts self ext) = NotFound"
  shows "run h opts clean self w =
           (Some (OSError ENOENT),
            w1\<lparr>events := events w1 @ [ProcCall (configure_cmd h opts self ext) (Some (build_temp self))]\<rparr>)"
  using assms by (simp add: run_def build_extension_def check_call_def)

text \<open>
  The handler never changes a mode and never retries: for \<^verbatim>\<open>os.rmdir\<close> and
  \<^verbatim>\<open>os.remove\<close> it raises NameError, \<^verbatim>\<open>errno\<close> being unbound, and for every other
  function it raises the exception it was given.
\<close>

lemma remove_read_only_raises:
  "remove_read_only func n exc =
     (Some n, Some (if func = os_rmdir \<or> func = os_remove then NameError ''errno'' else exc))"
proof -
  have "\<not> name_bound ''errno''" by (simp add: name_bound_def module_names_def)
  then show ?thesis by (auto simp: remove_read_only_def)
qed

text \<open>
  Claim C2. A clean preparation of a build directory that holds a read-only file, or a
  read-only subdirectory, should succeed and leave the directory empty. It fails with
  NameError instead, and the directory keeps its content: the removal of the entry is
  refused, the handler is called and stops at the unbound name.
\<close>

theorem clean_fails_on_read_only_file:
  "prepare_build_folder True [''src'', ''dlib'', ''build'', ''temp'']
       \<lparr>fs = built_tree, events = []\<rparr>
     = (Some (NameError ''errno''),
        \<lparr>fs = built_tree, events = [RmtreeCall [''src'', ''dlib'', ''build'', ''temp'']]\<rparr>)
   \<and> prepare_build_folder True [''src'', ''dlib'', ''build'', ''temp'']
       \<lparr>fs = built_tree_ro_dir, events = []\<rparr>
     = (Some (NameError ''errno''),
        \<lparr>fs = built_tree_ro_dir, events = [RmtreeCall [''src'', ''dlib'', ''build'', ''temp'']]\<rparr>)"
  by (simp add: prepare_build_folder_def rmtree_def built_tree_def built_tree_ro_dir_def
        attempt_def os_call_def remove_read_only_raises EACCES_def)

subsection \<open>Preparation without the clean flag\<close>

lemma makedirs_node_creates:
  "makedirs_node p t = Inr t' \<Longrightarrow> lookup t' p = Some (Dir False [])"
proof (induction p t arbitrary: t' rule: makedirs_node.induct)
  case 1
  then show ?case by auto
next
  case (2 n)
  then show ?case by simp
next
  case (3 c cs)
  then show ?case by (auto split: sum.splits)
next
  case (4 c cs ro)
  then show ?case by simp
next
  case (5 c cs ro kids)
  then show ?case by (auto split: sum.splits simp: update_conv')
qed

lemma makedirs_node_frame:
  "makedirs_node p (Some t) = Inr t' \<Longrightarrow> lookup t q = Some n \<Longrightarrow>
   lookup t' q = Some n
   \<or> (prefix q p \<and> (\<exists>ro kids kids'. n = Dir ro kids \<and> lookup t' q = Some (Dir ro kids')))"
proof (induction p arbitrary: t t' q n)
  case Nil
  then show ?case by simp
next
  case (Cons c cs)
  show ?case
  proof (cases t)
    case (File ro)
    with Cons.prems show ?thesis by simp
  next
    case (Dir ro kids)
    from Cons.prems(1) Dir obtain k where
      mk: "makedirs_node cs (map_of kids c) = Inr k" and
      t': "t' = Dir ro (AList.update c k kids)"
      by (auto split: sum.splits)
    show ?thesis
    proof (cases q)
      case Nil
      with Cons.prems(2) Dir t' show ?thesis by auto
    next
      case (Cons c' qs)
      show ?thesis
      proof (cases "c' = c")
        case False
        with Cons.prems(2) Dir t' Cons show ?thesis by (simp add: update_conv')
      next
        case True
        from Cons.prems(2) Dir Cons True obtain k0 where
          k0: "map_of kids c = Some k0" and l0: "lookup k0 qs = Some n"
          by (auto split: option.splits)
        from mk k0 have "makedirs_node cs (Some k0) = Inr k" by simp
        from Cons.IH[OF this l0] show ?thesis
          using t' Cons True by (auto simp: update_conv')
      qed
    qed
  qed
qed

lemma makedirs_node_new:
  "makedirs_node p t = Inr t' \<Longrightarrow> lookup t' q = Some n' \<Longrightarrow>
   (\<exists>t0. t = Some t0 \<and> lookup t0 q \<noteq> None) \<or> prefix q p"
proof (induction p t arbitrary: t' q n' rule: makedirs_node.induct)
  case 1
  then show ?case by (cases q) auto
next
  case (2 n)
  then show ?case by simp
next
  case (3 c cs)
  from "3.prems"(1) obtain k where mk: "makedirs_node cs None = Inr k"
    and t': "t' = Dir False [(c, k)]" by (auto split: sum.splits)
  show ?case
  proof (cases q)
    case Nil
    then show ?thesis by simp
  next
    case (Cons c' qs)
    with "3.prems"(2) t' have cc: "c' = c" and l: "lookup k qs = Some n'"
      by (auto split: if_splits)
    from "3.IH"[OF mk l] show ?thesis using Cons cc by simp
  qed
next
  case (4 c cs ro)
  then show ?case by simp
next
  case (5 c cs ro kids)
  from "5.prems"(1) obtain k where mk: "makedirs_node cs (map_of kids c) = Inr k"
    and t': "t' = Dir ro (AList.update c k kids)" by (auto split: sum.splits)
  show ?case
  proof (cases q)
    case Nil
    then show ?thesis by simp
  next
    case (Cons c' qs)
    show ?thesis
    proof (cases "c' = c")
      case False
      with "5.prems"(2) t' Cons show ?thesis by (auto simp: update_conv' split: option.splits)
    next
      case True
      with "5.prems"(2) t' Cons have l: "lookup k qs = Some n'" by (simp add: update_conv')
      from "5.IH"[OF mk l] show ?thesis using Cons True by auto
    qed
  qed
qed

text \<open>
  Claim C10. Without the clean flag the preparation step calls no removal. When the build
  directory exists, nothing changes at all. When it is absent, the one call is
  \<^verbatim>\<open>os.makedirs\<close>, after which the directory exists and is empty (or, should the call
  fail, the tree is as before); every entry that existed is still there unchanged, except
  that a directory on the way to the new one has gained a child; and every entry that is new
  lies on the path of the build directory.
\<close>

theorem no_clean_never_removes:
  assumes "prepare_build_folder False p w = (x, w')"
  shows "(\<forall>q. RmtreeCall q \<in> set (events w') \<longrightarrow> RmtreeCall q \<in> set (events w))
       \<and> (lookup (fs w) p \<noteq> None \<longrightarrow> x = None \<and> w' = w)
       \<and> (lookup (fs w) p = None \<longrightarrow>
             events w' = events w @ [MakedirsCall p]
             \<and> (x = None \<longrightarrow> lookup (fs w') p = Some (Dir False []))
             \<and> (x \<noteq> None \<longrightarrow> fs w' = fs w))
       \<and> (\<forall>q n. lookup (fs w) q = Some n \<longrightarrow>
             lookup (fs w') q = Some n
             \<or> (prefix q p \<and> (\<exists>ro kids kids'. n = Dir ro kids \<and> lookup (fs w') q = Some (Dir ro kids'))))
       \<and> (\<forall>q. lookup (fs w') q \<noteq> None \<longrightarrow> lookup (fs w) q \<noteq> None \<or> prefix q p)"
proof (cases "lookup (fs w) p = None")
  case False
  with assms have "x = None" "w' = w" by (auto simp: prepare_build_folder_def)
  with False show ?thesis by simp
next
  case absent: True
  with assms have mk: "makedirs p w = (x, w')" by (simp add: prepare_build_folder_def)
  show ?thesis
  proof (cases "makedirs_node p (Some (fs w))")
    case (Inl e)
    with mk have "x = Some e" "w' = w\<lparr>events := events w @ [MakedirsCall p]\<rparr>"
      by (auto simp: makedirs_def)
    with absent show ?thesis by auto
  next
    case (Inr t)
    with mk have x: "x = None" and w': "w' = w\<lparr>fs := t, events := events w @ [MakedirsCall p]\<rparr>"
      by (auto simp: makedirs_def)
    have a: "lookup (fs w') p = Some (Dir False [])"
      using makedirs_node_creates[OF Inr] w' by simp
    have b: "\<forall>q n. lookup (fs w) q = Some n \<longrightarrow>
             lookup (fs w') q = Some n
             \<or> (prefix q p \<and> (\<exists>ro kids kids'. n = Dir ro kids \<and> lookup (fs w') q = Some (Dir ro kids')))"
      using makedirs_node_frame[OF Inr] w' by simp
    have c: "\<forall>q. lookup (fs w') q \<noteq> None \<longrightarrow> lookup (fs w) q \<noteq> None \<or> prefix q p"
    proof (intro allI impI)
      fix q assume "lookup (fs w') q \<noteq> None"
      then obtain n' where "lookup t q = Some n'" using w' by auto
      from makedirs_node_new[OF Inr this] show "lookup (fs w) q \<noteq> None \<or> prefix q p" by auto
    qed
    have d: "\<forall>q. RmtreeCall q \<in> set (events w') \<longrightarrow> RmtreeCall q \<in> set (events w)"
      using w' by simp
    have e: "events w' = events w @ [MakedirsCall p]" using w' by simp
    from a b c d e x absent show ?thesis by blast
  qed
qed

theorem no_clean_never_removes_witness:
  "prepare_build_folder False [''src'', ''dlib'', ''build'', ''temp''] \<lparr>fs = built_tree, events = []\<rparr>
     = (None, \<lparr>fs = built_tree, events = []\<rparr>)
   \<and> lookup built_tree [''src'', ''dlib'', ''build'', ''temp'', ''CMakeCache.txt''] = Some (File True)"
proof -
  have p: "prepare_build_folder False [''src'', ''dlib'', ''build'', ''temp''] \<lparr>fs = built_tree, events = []\<rparr>
     = (None, \<lparr>fs = built_tree, events = []\<rparr>)"
    by (simp add: prepare_build_folder_def built_tree_def)
  have l: "lookup built_tree [''src'', ''dlib'', ''build'', ''temp'', ''CMakeCache.txt''] = Some (File True)"
    by (simp add: built_tree_def)
  from no_clean_never_removes[OF p] p l show ?thesis by simp
qed

subsection \<open>The version check on Windows\<close>

lemma is_digit_char_of: "(d::nat) < 10 \<Longrightarrow> is_digit (char_of (48 + d))"
  by (simp add: is_digit_def)

lemma digit_val_char_of: "(d::nat) < 10 \<Longrightarrow> digit_val (char_of (48 + d)) = d"
  by (simp add: digit_val_def)

lemma str_nat_digits: "\<forall>c\<in>set (str_nat n). is_digit c"
proof (induction n rule: str_nat.induct)
  case (1 n)
  show ?case
  proof (cases "n < 10")
    case True
    then show ?thesis by (subst str_nat.simps) (simp add: is_digit_char_of)
  next
    case False
    have "n mod 10 < 10" by simp
    then have "is_digit (char_of (48 + n mod 10))" by (rule is_digit_char_of)
    with False 1 show ?thesis by (subst str_nat.simps) simp
  qed
qed

lemma str_nat_nonempty: "str_nat n \<noteq> []"
  by (subst str_nat.simps) simp

lemma read_nat_snoc: "read_nat (s @ [c]) = 10 * read_nat s + digit_val c"
  by (simp add: read_nat_def)

lemma read_nat_str_nat: "read_nat (str_nat n) = n"
proof (induction n rule: str_nat.induct)
  case (1 n)
  show ?case
  proof (cases "n < 10")
    case True
    then show ?thesis by (subst str_nat.simps) (simp add: read_nat_def digit_val_char_of)
  next
    case False
    have "n mod 10 < 10" by simp
    then have "digit_val (char_of (48 + n mod 10)) = n mod 10" by (rule digit_val_char_of)
    with False 1 show ?thesis by (subst str_nat.simps) (simp add: read_nat_snoc)
  qed
qed

lemma digit_not_dot: "is_digit c \<Longrightarrow> c \<noteq> CHR ''.''"
  by (auto simp: is_digit_def)

lemma digit_not_space: "is_digit c \<Longrightarrow> \<not> py_isspace c"
  by (auto simp: is_digit_def py_isspace_def Let_def)

lemma components_digits:
  "\<forall>c\<in>set d. is_digit c \<Longrightarrow> components cur (d @ r) = components (cur @ d) r"
  by (induction d arbitrary: cur) (auto dest: digit_not_dot)

lemma components_three:
  "components [] (str_nat a @ ''.'' @ str_nat b @ ''.'' @ str_nat c) = [a, b, c]"
proof -
  have "components [] (str_nat a @ ''.'' @ str_nat b @ ''.'' @ str_nat c)
      = components (str_nat a) (''.'' @ str_nat b @ ''.'' @ str_nat c)"
    using components_digits[OF str_nat_digits, of "[]" a] by simp
  also have "\<dots> = a # components [] (str_nat b @ ''.'' @ str_nat c)"
    by (simp add: str_nat_nonempty read_nat_str_nat)
  also have "components [] (str_nat b @ ''.'' @ str_nat c) = components (str_nat b) (''.'' @ str_nat c)"
    using components_digits[OF str_nat_digits, of "[]" b] by simp
  also have "\<dots> = b # components [] (str_nat c @ [])"
    by (simp add: str_nat_nonempty read_nat_str_nat)
  also have "components [] (str_nat c @ []) = components (str_nat c) []"
    using components_digits[OF str_nat_digits, of "[]" c "[]"] by simp
  also have "\<dots> = [c]" by (simp add: str_nat_nonempty read_nat_str_nat)
  finally show ?thesis .
qed

lemma version_here_found:
  assumes "v \<noteq> []" "\<forall>c\<in>set v. version_char c" "\<not> py_isspace (hd v)"
    and "rest = [] \<or> \<not> version_char (hd rest)"
  shows "version_here (''version '' @ v @ rest) = Some v"
proof -
  have sp: "py_isspace CHR '' ''" by (simp add: py_isspace_def)
  from assms(1) obtain x xs where v: "v = x # xs" by (cases v) auto
  have dw: "dropWhile py_isspace (CHR '' '' # v @ rest) = v @ rest"
    using sp assms(3) v by simp
  have tw: "takeWhile version_char (v @ rest) = v"
  proof (cases rest)
    case Nil
    then show ?thesis using assms(2) by simp
  next
    case (Cons y ys)
    with assms(4) have "\<not> version_char y" by simp
    with Cons assms(2) show ?thesis by simp
  qed
  show ?thesis using dw tw assms(1) by (simp add: version_here_def)
qed

lemma search_version_cmake:
  assumes "v \<noteq> []" "\<forall>c\<in>set v. version_char c" "\<not> py_isspace (hd v)"
    and "rest = [] \<or> \<not> version_char (hd rest)"
  shows "search_version (''cmake version '' @ v @ rest) = Some v"
proof -
  have "search_version (''cmake version '' @ v @ rest) = search_version (''version '' @ v @ rest)"
    by (simp add: version_here_def)
  also have "\<dots> = Some v"
    using version_here_found[OF assms] by simp
  finally show ?thesis .
qed

lemma dotted_props:
  "dotted a b c \<noteq> []" "\<forall>ch\<in>set (dotted a b c). version_char ch" "\<not> py_isspace (hd (dotted a b c))"
proof -
  show "dotted a b c \<noteq> []" by (simp add: dotted_def str_nat_nonempty)
  show "\<forall>ch\<in>set (dotted a b c). version_char ch"
    using str_nat_digits by (auto simp: dotted_def version_char_def)
  have "hd (dotted a b c) = hd (str_nat a)" by (simp add: dotted_def str_nat_nonempty)
  moreover have "is_digit (hd (str_nat a))"
  proof -
    have "hd (str_nat a) \<in> set (str_nat a)" using str_nat_nonempty by (rule hd_in_set)
    with str_nat_digits show ?thesis by blast
  qed
  ultimately show "\<not> py_isspace (hd (dotted a b c))" by (simp add: digit_not_space)
qed

text \<open>
  Claim C8. On Windows, when \<^verbatim>\<open>cmake --version\<close> prints
  \<^verbatim>\<open>cmake version a.b.c\<close> followed by anything that does not continue the token, the
  version obtained is the token \<^verbatim>\<open>a.b.c\<close>; and when that version is below 3.1.0,
  \<^verbatim>\<open>run\<close> fails with the RuntimeError that asks for CMake 3.1.0, the version query being
  the only call made: nothing is configured.
\<close>

theorem windows_old_cmake_rejected:
  assumes "platform_system h = ''Windows''"
    and "run_proc h [''cmake'', ''--version''] = Exited 0 (''cmake version '' @ dotted a b c @ rest)"
    and "rest = [] \<or> \<not> version_char (hd rest)"
    and "a < 3 \<or> (a = 3 \<and> b < 1)"
  shows "get_cmake_version h self w =
           (Inr (dotted a b c), w\<lparr>events := events w @ [ProcCall [''cmake'', ''--version''] None]\<rparr>)
         \<and> run h opts clean self w =
           (Some (RuntimeError ''CMake >= 3.1.0 is required on Windows''),
            w\<lparr>events := events w @ [ProcCall [''cmake'', ''--version''] None]\<rparr>)"
proof -
  have sv: "search_version (''cmake version '' @ dotted a b c @ rest) = Some (dotted a b c)"
    using search_version_cmake[OF dotted_props assms(3)] .
  have gv: "get_cmake_version h self w =
           (Inr (dotted a b c), w\<lparr>events := events w @ [ProcCall [''cmake'', ''--version''] None]\<rparr>)"
    using assms(2) sv by (simp add: get_cmake_version_def check_output_def del: search_version.simps)
  have lv: "LooseVersion (dotted a b c) = [a, b, c]"
    unfolding LooseVersion_def dotted_def by (rule components_three)
  have min: "LooseVersion ''3.1.0'' = [3, 1, 0]" by code_simp
  have "list_less (LooseVersion (dotted a b c)) (LooseVersion ''3.1.0'')"
    using assms(4) by (auto simp: lv min)
  with gv assms(1) show ?thesis by (simp add: run_def)
qed

theorem windows_old_cmake_rejected_witness:
  "platform_system windows_old_cmake = ''Windows''
   \<and> run_proc windows_old_cmake [''cmake'', ''--version'']
       = Exited 0 (''cmake version '' @ dotted 2 8 12 @ [CHR 0x0A])
   \<and> \<not> version_char (hd [CHR 0x0A]) \<and> (2::nat) < 3
   \<and> dotted 2 8 12 = ''2.8.12''
   \<and> run windows_old_cmake [] False dlib_build \<lparr>fs = src_tree, events = []\<rparr> =
         (Some (RuntimeError ''CMake >= 3.1.0 is required on Windows''),
          \<lparr>fs = src_tree, events = [ProcCall [''cmake'', ''--version''] None]\<rparr>)"
proof -
  have d: "dotted 2 8 12 = ''2.8.12''" by code_simp
  have p: "platform_system windows_old_cmake = ''Windows''" by (simp add: windows_old_cmake_def)
  have r: "run_proc windows_old_cmake [''cmake'', ''--version'']
       = Exited 0 (''cmake version '' @ dotted 2 8 12 @ [CHR 0x0A])"
    by (simp add: windows_old_cmake_def d)
  have nv: "\<not> version_char (hd [CHR 0x0A])" by (simp add: version_char_def is_digit_def)
  then have e: "[CHR 0x0A] = [] \<or> \<not> version_char (hd [CHR 0x0A])" by simp
  have v: "(2::nat) < 3 \<or> ((2::nat) = 3 \<and> (8::nat) < 1)" by simp
  from windows_old_cmake_rejected[OF p r e v, of dlib_build "\<lparr>fs = src_tree, events = []\<rparr>" "[]" False]
  have "run windows_old_cmake [] False dlib_build \<lparr>fs = src_tree, events = []\<rparr> =
         (Some (RuntimeError ''CMake >= 3.1.0 is required on Windows''),
          \<lparr>fs = src_tree, events = [ProcCall [''cmake'', ''--version''] None]\<rparr>)" by simp
  with p r nv d show ?thesis by simp
qed

end
